theory Spec2Isabelle
  imports Complex_Main "HOL-Library.Log_Nat"
begin

section \<open>Constants of \<^verbatim>\<open>app.py\<close>\<close>

definition MAX_IMAGE_SIZE :: int where "MAX_IMAGE_SIZE = 512"
definition MAX_VIDEO_DURATION :: int where "MAX_VIDEO_DURATION = 3"
definition MAX_VIDEO_SIZE_KB :: int where "MAX_VIDEO_SIZE_KB = 256"
definition ICON_SIZE :: int where "ICON_SIZE = 100"
definition MAX_ICON_SIZE_KB :: int where "MAX_ICON_SIZE_KB = 32"
definition VIDEO_FPS :: int where "VIDEO_FPS = 30"

section \<open>Python values: exceptions and floats\<close>

text \<open>
  The exceptions that the modelled statements can raise. Every one of them is a subclass of
  \<^verbatim>\<open>Exception\<close>, so the handlers \<^verbatim>\<open>except Exception\<close> catch them all; the handler
  \<^verbatim>\<open>except (ValueError, IndexError)\<close> of the probe catches the first two only.
\<close>

datatype py_exn =
  ValueError | IndexError | ZeroDivisionError | OverflowError | CalledProcessError | OSError

text \<open>
  A Python \<^verbatim>\<open>float\<close> is an IEEE 754 binary64 number. \<open>Finite m e\<close> stands for
  \<open>m * 2 ^ e\<close>; the arithmetic below only ever builds values with \<open>\<bar>m\<bar> \<le> 2 ^ 53\<close> and
  \<open>- 1074 \<le> e\<close>. \<open>Infinite neg\<close> is \<^verbatim>\<open>inf\<close> (\<^verbatim>\<open>-inf\<close> when \<open>neg\<close>).
\<close>

datatype pyfloat = Finite int int | Infinite bool | NaN

text \<open>The quotient \<open>n / d\<close> rounded to an integer, ties to the even neighbour (\<open>0 \<le> n\<close>, \<open>0 < d\<close>).\<close>

definition round_half_even :: "int \<Rightarrow> int \<Rightarrow> int" where
  "round_half_even n d =
     (let q = n div d; r = n mod d
      in if 2 * r < d then q
         else if d < 2 * r then q + 1
         else if even q then q else q + 1)"

text \<open>\<open>\<lfloor>log\<^sub>2 (n / d)\<rfloor>\<close> for positive \<open>n\<close> and \<open>d\<close>, from the bit lengths of both.\<close>

definition floor_log2 :: "int \<Rightarrow> int \<Rightarrow> int" where
  "floor_log2 n d =
     (let e0 = bitlen n - bitlen d
      in if d * 2 ^ nat e0 \<le> n * 2 ^ nat (- e0) then e0 else e0 - 1)"

definition overflow_threshold :: int where "overflow_threshold = 2 ^ 1024"

text \<open>
  The rational \<open>n / d\<close> (\<open>d \<noteq> 0\<close>) rounded to the nearest binary64 value, ties to even:
  53 significant bits in the normal range, the fixed quantum \<open>2 ^ - 1074\<close> in the subnormal
  range, overflow to infinity from \<open>2 ^ 1024\<close> on.
\<close>

definition round_binary64 :: "int \<Rightarrow> int \<Rightarrow> pyfloat" where
  "round_binary64 n d =
     (if n = 0 then Finite 0 0
      else
        let a = \<bar>n\<bar>; b = \<bar>d\<bar>;
            e = max (floor_log2 a b - 52) (- 1074);
            m = round_half_even (a * 2 ^ nat (- e)) (b * 2 ^ nat e)
        in if overflow_threshold \<le> m * 2 ^ nat e then Infinite ((n < 0) \<noteq> (d < 0))
           else Finite (if (n < 0) \<noteq> (d < 0) then - m else m) e)"

text \<open>\<^verbatim>\<open>a / b\<close> on two ints: correctly rounded true division.\<close>

definition py_truediv :: "int \<Rightarrow> int \<Rightarrow> py_exn + pyfloat" where
  "py_truediv a b =
     (if b = 0 then Inl ZeroDivisionError
      else case round_binary64 a b of
             Infinite _ \<Rightarrow> Inl OverflowError
           | x \<Rightarrow> Inr x)"

text \<open>The implicit conversion of an int operand to float.\<close>

definition py_float_of_int :: "int \<Rightarrow> py_exn + pyfloat" where
  "py_float_of_int n =
     (case round_binary64 n 1 of
        Infinite _ \<Rightarrow> Inl OverflowError
      | x \<Rightarrow> Inr x)"

text \<open>The product of two floats; it overflows to an infinity without raising.\<close>

fun py_float_mul :: "pyfloat \<Rightarrow> pyfloat \<Rightarrow> pyfloat" where
  "py_float_mul (Finite m1 e1) (Finite m2 e2) =
     round_binary64 (m1 * m2 * 2 ^ nat (e1 + e2)) (2 ^ nat (- (e1 + e2)))"
| "py_float_mul (Finite m e) (Infinite s) = (if m = 0 then NaN else Infinite (s \<noteq> (m < 0)))"
| "py_float_mul (Infinite s) (Finite m e) = (if m = 0 then NaN else Infinite (s \<noteq> (m < 0)))"
| "py_float_mul (Infinite s) (Infinite t) = Infinite (s \<noteq> t)"
| "py_float_mul NaN _ = NaN"
| "py_float_mul _ NaN = NaN"

text \<open>\<^verbatim>\<open>n * x\<close> with an int \<open>n\<close> and a float \<open>x\<close>.\<close>

definition py_mul_int_float :: "int \<Rightarrow> pyfloat \<Rightarrow> py_exn + pyfloat" where
  "py_mul_int_float n x =
     (case py_float_of_int n of
        Inl err \<Rightarrow> Inl err
      | Inr y \<Rightarrow> Inr (py_float_mul y x))"

text \<open>\<^verbatim>\<open>int(x)\<close> on a float: truncation towards zero.\<close>

fun py_int :: "pyfloat \<Rightarrow> py_exn + int" where
  "py_int (Finite m e) = Inr (sgn m * ((\<bar>m\<bar> * 2 ^ nat e) div 2 ^ nat (- e)))"
| "py_int (Infinite _) = Inl OverflowError"
| "py_int NaN = Inl ValueError"

text \<open>\<^verbatim>\<open>x <= k\<close> with a float \<open>x\<close> and an int \<open>k\<close>: Python compares the exact values.\<close>

fun py_le_float_int :: "pyfloat \<Rightarrow> int \<Rightarrow> bool" where
  "py_le_float_int (Finite m e) k \<longleftrightarrow> m * 2 ^ nat e \<le> k * 2 ^ nat (- e)"
| "py_le_float_int (Infinite neg) k \<longleftrightarrow> neg"
| "py_le_float_int NaN k \<longleftrightarrow> False"

text \<open>The exact value of a finite float, for stating error bounds.\<close>

fun float_val :: "pyfloat \<Rightarrow> real" where
  "float_val (Finite m e) = real_of_int m * 2 ^ nat e / 2 ^ nat (- e)"
| "float_val (Infinite _) = 0"
| "float_val NaN = 0"

text \<open>
  The bounds of the rounding error: half a unit in the last of 53 bits, and half of the
  subnormal quantum.
\<close>

definition rel_err :: real where "rel_err = 1 / 2 ^ 53"
definition abs_err :: real where "abs_err = 1 / 2 ^ 1075"

section \<open>The dimension computations\<close>

text \<open>
  \<^verbatim>\<open>resize_image\<close>, lines 39-47: the size handed to \<^verbatim>\<open>img.resize\<close>.
\<close>

definition scale_dimension :: "int \<Rightarrow> pyfloat \<Rightarrow> py_exn + int" where
  "scale_dimension side ratio =
     (case py_mul_int_float side ratio of
        Inl err \<Rightarrow> Inl err
      | Inr x \<Rightarrow> py_int x)"

definition resize_image_dims :: "bool \<Rightarrow> int \<Rightarrow> int \<Rightarrow> py_exn + int \<times> int" where
  "resize_image_dims is_icon width height =
     (if is_icon then Inr (ICON_SIZE, ICON_SIZE)
      else
        case py_truediv MAX_IMAGE_SIZE (max width height) of
          Inl err \<Rightarrow> Inl err
        | Inr ratio \<Rightarrow>
            (case scale_dimension width ratio of
               Inl err \<Rightarrow> Inl err
             | Inr new_width \<Rightarrow>
                 (case scale_dimension height ratio of
                    Inl err \<Rightarrow> Inl err
                  | Inr new_height \<Rightarrow> Inr (new_width, new_height))))"

text \<open>
  \<^verbatim>\<open>convert_video\<close>, lines 89-100. Python's \<^verbatim>\<open>%\<close> takes the sign of the divisor, as
  \<open>mod\<close> on \<open>int\<close> does.
\<close>

definition ensure_even :: "int \<Rightarrow> int" where
  "ensure_even n = (if n mod 2 = 0 then n else n + 1)"

definition convert_video_dims :: "bool \<Rightarrow> int \<Rightarrow> int \<Rightarrow> py_exn + int \<times> int" where
  "convert_video_dims is_icon width height =
     (let target_size = (if is_icon then ICON_SIZE else MAX_IMAGE_SIZE)
      in if is_icon then Inr (ICON_SIZE, ICON_SIZE)
         else
           case py_truediv target_size (max width height) of
             Inl err \<Rightarrow> Inl err
           | Inr ratio \<Rightarrow>
               (case scale_dimension width ratio of
                  Inl err \<Rightarrow> Inl err
                | Inr new_width \<Rightarrow>
                    (case scale_dimension height ratio of
                       Inl err \<Rightarrow> Inl err
                     | Inr new_height \<Rightarrow>
                         Inr (ensure_even new_width, ensure_even new_height))))"


section \<open>Strings: \<^verbatim>\<open>strip\<close>, \<^verbatim>\<open>split\<close> and \<^verbatim>\<open>int\<close>\<close>

text \<open>
  The text written by the inspection process is a \<open>string\<close>, the character \<open>c\<close> standing
  for the code point \<open>of_char c\<close> (below 256). Among these code points \<^verbatim>\<open>str.isspace\<close>
  holds for the twelve listed in \<open>isspace\<close>; \<^verbatim>\<open>int\<close> skips eight of them (not the
  separators 28 to 31), and its only digits are \<^verbatim>\<open>0\<close> to \<^verbatim>\<open>9\<close>.
\<close>

definition isspace :: "char \<Rightarrow> bool" where
  "isspace c \<longleftrightarrow> (of_char c :: nat) \<in> {9, 10, 11, 12, 13, 28, 29, 30, 31, 32, 133, 160}"

definition py_strip :: "string \<Rightarrow> string" where
  "py_strip s = rev (dropWhile isspace (rev (dropWhile isspace s)))"

fun py_split :: "char \<Rightarrow> string \<Rightarrow> string list" where
  "py_split sep [] = [[]]"
| "py_split sep (c # cs) =
     (if c = sep then [] # py_split sep cs
      else case py_split sep cs of
             [] \<Rightarrow> [[c]]
           | field # fields \<Rightarrow> (c # field) # fields)"

definition int_space :: "char \<Rightarrow> bool" where
  "int_space c \<longleftrightarrow> (of_char c :: nat) \<in> {9, 10, 11, 12, 13, 32, 133, 160}"

definition is_digit :: "char \<Rightarrow> bool" where
  "is_digit c \<longleftrightarrow> 48 \<le> (of_char c :: nat) \<and> (of_char c :: nat) \<le> 57"

definition digit_value :: "char \<Rightarrow> int" where
  "digit_value c = int (of_char c) - 48"

text \<open>
  The digits of a decimal literal, single underscores allowed between two digits: the value
  and the number of digits read. \<open>prev\<close> tells that the character before was a digit.
\<close>

fun parse_digits :: "string \<Rightarrow> bool \<Rightarrow> int \<Rightarrow> nat \<Rightarrow> (int \<times> nat) option" where
  "parse_digits [] prev acc cnt = (if prev then Some (acc, cnt) else None)"
| "parse_digits (c # cs) prev acc cnt =
     (if is_digit c then parse_digits cs True (10 * acc + digit_value c) (Suc cnt)
      else if c = CHR ''_'' \<and> prev then parse_digits cs False acc cnt
      else None)"

text \<open>The default limit of CPython on the digits of a decimal string converted to int.\<close>

definition max_str_digits :: nat where "max_str_digits = 4300"

definition py_int_of_str :: "string \<Rightarrow> py_exn + int" where
  "py_int_of_str s =
     (let t = rev (dropWhile int_space (rev (dropWhile int_space s)));
          neg = (t \<noteq> [] \<and> hd t = CHR ''-'');
          ds = (if t \<noteq> [] \<and> (hd t = CHR ''-'' \<or> hd t = CHR ''+'') then tl t else t)
      in case parse_digits ds False 0 0 of
           None \<Rightarrow> Inl ValueError
         | Some (v, cnt) \<Rightarrow>
             if max_str_digits < cnt then Inl ValueError
             else Inr (if neg then - v else v))"

text \<open>\<^verbatim>\<open>xs[i]\<close> for \<open>0 \<le> i\<close>.\<close>

definition list_get :: "'a list \<Rightarrow> nat \<Rightarrow> py_exn + 'a" where
  "list_get xs i = (if i < length xs then Inr (xs ! i) else Inl IndexError)"

section \<open>The probe\<close>

text \<open>
  What \<^verbatim>\<open>subprocess.run(cmd, capture_output=True, text=True)\<close> returns when the process
  could be started and its output decoded.
\<close>

record completed_process =
  returncode :: int
  stdout :: string

text \<open>\<^verbatim>\<open>convert_video\<close>, lines 83-85: the body of the inner \<^verbatim>\<open>try\<close>.\<close>

definition parse_dimensions :: "string \<Rightarrow> py_exn + int \<times> int" where
  "parse_dimensions out =
     (let dimensions = py_split CHR '','' (py_strip out)
      in case list_get dimensions 0 of
           Inl err \<Rightarrow> Inl err
         | Inr field0 \<Rightarrow>
             (case py_int_of_str field0 of
                Inl err \<Rightarrow> Inl err
              | Inr width \<Rightarrow>
                  (case list_get dimensions 1 of
                     Inl err \<Rightarrow> Inl err
                   | Inr field1 \<Rightarrow>
                       (case py_int_of_str field1 of
                          Inl err \<Rightarrow> Inl err
                        | Inr height \<Rightarrow> Inr (width, height)))))"

text \<open>
  Lines 82-87: the inner \<^verbatim>\<open>try\<close> with its handler for \<^verbatim>\<open>ValueError\<close> and
  \<^verbatim>\<open>IndexError\<close>. The return code of the process is not read.
\<close>

definition probe_dimensions :: "completed_process \<Rightarrow> py_exn + int \<times> int" where
  "probe_dimensions result =
     (case parse_dimensions (stdout result) of
        Inr dims \<Rightarrow> Inr dims
      | Inl err \<Rightarrow>
          if err = ValueError \<or> err = IndexError then Inr (1280, 720) else Inl err)"

section \<open>The bitrate search\<close>

text \<open>The parts of the encoder's command line that \<^verbatim>\<open>convert_video\<close> computes.\<close>

record ffmpeg_cmd =
  duration :: int
  scale_width :: int
  scale_height :: int
  fps :: int
  loop_filter :: bool
  bitrate_k :: int

text \<open>
  The outcome of \<^verbatim>\<open>subprocess.run\<close>: the call raises (the program cannot be started), or
  the process exits with a return code.
\<close>

datatype run_result = Raised py_exn | Exited int

text \<open>
  The environment of one conversion: the outcome of the inspection call, and for the
  \<open>i\<close>-th encoder call (from 0) with a given command line, its outcome and the size in
  bytes of the file at the output path afterwards (\<open>None\<close>: no such file).
\<close>

record video_world =
  ffprobe :: "py_exn + completed_process"
  ffmpeg :: "nat \<Rightarrow> ffmpeg_cmd \<Rightarrow> run_result \<times> nat option"

text \<open>The literal \<^verbatim>\<open>0.6\<close>, and line 137: \<^verbatim>\<open>int(bitrate * 0.6)\<close>.\<close>

definition literal_0_6 :: pyfloat where
  "literal_0_6 = round_binary64 6 10"

definition reduce_bitrate :: "int \<Rightarrow> py_exn + int" where
  "reduce_bitrate bitrate =
     (case py_mul_int_float bitrate literal_0_6 of
        Inl err \<Rightarrow> Inl err
      | Inr x \<Rightarrow> py_int x)"

definition make_cmd :: "bool \<Rightarrow> int \<Rightarrow> int \<Rightarrow> int \<Rightarrow> ffmpeg_cmd" where
  "make_cmd is_icon new_width new_height bitrate =
     \<lparr>duration = MAX_VIDEO_DURATION, scale_width = new_width, scale_height = new_height,
      fps = VIDEO_FPS, loop_filter = is_icon, bitrate_k = bitrate\<rparr>"

text \<open>
  Lines 126-138, one iteration of the loop after the encoder call returned \<open>outcome\<close>:
  \<^verbatim>\<open>check=True\<close> raises on a return code other than 0, \<^verbatim>\<open>os.path.getsize\<close> raises
  when there is no file; then the iteration leaves the loop by \<^verbatim>\<open>break\<close> with
  \<^verbatim>\<open>file_size_kb\<close>, or goes on with \<^verbatim>\<open>file_size_kb\<close> and the reduced bitrate.
\<close>

datatype iteration = Raises py_exn | Breaks pyfloat | Continues pyfloat int

definition loop_body :: "run_result \<times> nat option \<Rightarrow> int \<Rightarrow> int \<Rightarrow> iteration" where
  "loop_body outcome max_size_kb bitrate =
     (case outcome of
        (Raised err, file) \<Rightarrow> Raises err
      | (Exited code, file) \<Rightarrow>
          if code \<noteq> 0 then Raises CalledProcessError
          else
            (case file of
               None \<Rightarrow> Raises OSError
             | Some size_bytes \<Rightarrow>
                 (case py_truediv (int size_bytes) 1024 of
                    Inl err \<Rightarrow> Raises err
                  | Inr file_size_kb \<Rightarrow>
                      if py_le_float_int file_size_kb max_size_kb then Breaks file_size_kb
                      else
                        (case reduce_bitrate bitrate of
                           Inl err \<Rightarrow> Raises err
                         | Inr bitrate' \<Rightarrow> Continues file_size_kb bitrate'))))"

text \<open>
  Lines 107-138, the loop \<^verbatim>\<open>for attempt in range(5)\<close> from iteration \<open>attempt\<close> on.
  The result is the list of the encoder calls made, the file at the output path after the
  last one, and either the exception that left the loop or the value of
  \<^verbatim>\<open>file_size_kb\<close> when the loop ended (by \<^verbatim>\<open>break\<close> or by exhaustion).
\<close>

function encode_attempts ::
  "(nat \<Rightarrow> ffmpeg_cmd \<Rightarrow> run_result \<times> nat option) \<Rightarrow> (int \<Rightarrow> ffmpeg_cmd) \<Rightarrow> int \<Rightarrow>
     nat \<Rightarrow> int \<Rightarrow> ffmpeg_cmd list \<times> nat option \<times> (py_exn + pyfloat)" where
  "encode_attempts run mk max_size_kb attempt bitrate =
     (let cmd = mk bitrate; outcome = run attempt cmd
      in case loop_body outcome max_size_kb bitrate of
           Raises err \<Rightarrow> ([cmd], snd outcome, Inl err)
         | Breaks file_size_kb \<Rightarrow> ([cmd], snd outcome, Inr file_size_kb)
         | Continues file_size_kb bitrate' \<Rightarrow>
             if Suc attempt < 5
             then
               (case encode_attempts run mk max_size_kb (Suc attempt) bitrate' of
                  (cmds, rest) \<Rightarrow> (cmd # cmds, rest))
             else ([cmd], snd outcome, Inr file_size_kb))"
  by pat_completeness auto
termination
  by (relation "measure (\<lambda>(run, mk, max_size_kb, attempt, bitrate). 5 - attempt)") auto

declare encode_attempts.simps [simp del]

text \<open>
  The bitrates of \<open>n\<close> successive iterations that start with the bitrate \<open>b\<close>
  (lines 104 and 137).
\<close>
fun bitrate_schedule :: "nat \<Rightarrow> int \<Rightarrow> int list" where
  "bitrate_schedule 0 b = []"
| "bitrate_schedule (Suc n) b =
     b # (case reduce_bitrate b of Inl err \<Rightarrow> [] | Inr b' \<Rightarrow> bitrate_schedule n b')"

text \<open>
  \<^verbatim>\<open>convert_video\<close>, lines 65-144, without the renaming of the output path: the encoder
  calls made, the file at the output path at the end, and what the body of the outer
  \<^verbatim>\<open>try\<close> does.
\<close>

definition convert_video_body ::
  "video_world \<Rightarrow> bool \<Rightarrow> ffmpeg_cmd list \<times> nat option \<times> (py_exn + bool)" where
  "convert_video_body world is_icon =
     (let max_size_kb = (if is_icon then MAX_ICON_SIZE_KB else MAX_VIDEO_SIZE_KB)
      in case ffprobe world of
           Inl err \<Rightarrow> ([], None, Inl err)
         | Inr result \<Rightarrow>
             (case probe_dimensions result of
                Inl err \<Rightarrow> ([], None, Inl err)
              | Inr (width, height) \<Rightarrow>
                  (case convert_video_dims is_icon width height of
                     Inl err \<Rightarrow> ([], None, Inl err)
                   | Inr (new_width, new_height) \<Rightarrow>
                       (case encode_attempts (ffmpeg world) (make_cmd is_icon new_width new_height)
                               max_size_kb 0 (if is_icon then 150 else 300) of
                          (cmds, file, Inl err) \<Rightarrow> (cmds, file, Inl err)
                        | (cmds, file, Inr file_size_kb) \<Rightarrow>
                            (cmds, file,
                             Inr (file \<noteq> None \<and> py_le_float_int file_size_kb max_size_kb))))))"

text \<open>The handler \<^verbatim>\<open>except Exception\<close> of lines 142-144 turns every exception into \<^verbatim>\<open>False\<close>.\<close>

definition convert_video :: "video_world \<Rightarrow> bool \<Rightarrow> bool" where
  "convert_video world is_icon =
     (case snd (snd (convert_video_body world is_icon)) of
        Inl err \<Rightarrow> False
      | Inr ok \<Rightarrow> ok)"

definition encoder_calls :: "video_world \<Rightarrow> bool \<Rightarrow> ffmpeg_cmd list" where
  "encoder_calls world is_icon = fst (convert_video_body world is_icon)"

definition output_file :: "video_world \<Rightarrow> bool \<Rightarrow> nat option" where
  "output_file world is_icon = fst (snd (convert_video_body world is_icon))"

definition raised :: "video_world \<Rightarrow> bool \<Rightarrow> py_exn option" where
  "raised world is_icon =
     (case snd (snd (convert_video_body world is_icon)) of
        Inl err \<Rightarrow> Some err
      | Inr ok \<Rightarrow> None)"

section \<open>The image renderer\<close>

text \<open>
  The environment of one image: what \<^verbatim>\<open>Image.open\<close> gives (the size of the image, or an
  exception), and whether resizing to a given size and saving raise.
\<close>

record image_world =
  image_open :: "py_exn + int \<times> int"
  resize_and_save :: "int \<times> int \<Rightarrow> py_exn option"

text \<open>
  \<^verbatim>\<open>resize_image\<close>, lines 35-61: the size asked of \<^verbatim>\<open>img.resize\<close>, if that call is
  reached, and what the body of the \<^verbatim>\<open>try\<close> does.
\<close>

definition resize_image_body :: "image_world \<Rightarrow> bool \<Rightarrow> (int \<times> int) option \<times> (py_exn + bool)" where
  "resize_image_body world is_icon =
     (case image_open world of
        Inl err \<Rightarrow> (None, Inl err)
      | Inr (width, height) \<Rightarrow>
          (case resize_image_dims is_icon width height of
             Inl err \<Rightarrow> (None, Inl err)
           | Inr new_size \<Rightarrow>
               (case resize_and_save world new_size of
                  Some err \<Rightarrow> (Some new_size, Inl err)
                | None \<Rightarrow> (Some new_size, Inr True))))"


definition resize_request :: "image_world \<Rightarrow> bool \<Rightarrow> (int \<times> int) option" where
  "resize_request world is_icon = fst (resize_image_body world is_icon)"

section \<open>The batch\<close>

























section \<open>Example environments\<close>

text \<open>
  Concrete environments on which the theorems below are instantiated: the inspection
  process reports 1280 by 720; the encoder always writes 300000 bytes, or always exits
  with return code 1 and writes nothing.
\<close>

definition probe_ok :: "py_exn + completed_process" where
  "probe_ok = Inr \<lparr>returncode = 0, stdout = ''1280,720''\<rparr>"

definition world_oversized :: video_world where
  "world_oversized = \<lparr>ffprobe = probe_ok, ffmpeg = (\<lambda>i cmd. (Exited 0, Some 300000))\<rparr>"

definition world_encoder_rejects :: video_world where
  "world_encoder_rejects = \<lparr>ffprobe = probe_ok, ffmpeg = (\<lambda>i cmd. (Exited 1, None))\<rparr>"

definition image_ok :: image_world where
  "image_ok = \<lparr>image_open = Inr (640, 480), resize_and_save = (\<lambda>size. None)\<rparr>"

definition world_fits :: video_world where
  "world_fits = \<lparr>ffprobe = probe_ok, ffmpeg = (\<lambda>i cmd. (Exited 0, Some 1000))\<rparr>"

definition world_probe_missing :: video_world where
  "world_probe_missing = world_fits\<lparr>ffprobe := Inl OSError\<rparr>"

definition probe_failed :: completed_process where
  "probe_failed = \<lparr>returncode = 1, stdout = []\<rparr>"





section \<open>Normal runs of the thread\<close>




section \<open>Properties of the float arithmetic\<close>


lemma pow2_split: "(2::real) ^ nat e / 2 ^ nat (- e) = 2 powi e"
  by (cases "0 \<le> e") (simp_all add: power_int_def field_simps)

lemma float_val_powi: "float_val (Finite m e) = real_of_int m * 2 powi e"
  by (simp only: float_val.simps pow2_split [symmetric] times_divide_eq_right)

lemma round_half_even_cases:
  "round_half_even n d = n div d \<and> 2 * (n mod d) \<le> d
   \<or> round_half_even n d = n div d + 1 \<and> d \<le> 2 * (n mod d)"
  unfolding round_half_even_def Let_def by (simp split: if_splits)

lemma round_half_even_bounds:
  assumes "0 < d"
  shows "2 * d * round_half_even n d \<le> 2 * n + d \<and> 2 * n - d \<le> 2 * d * round_half_even n d"
proof -
  define p where "p = d * (n div d)"
  define r where "r = n mod d"
  have eq: "n = p + r" by (simp only: p_def r_def mult_div_mod_eq)
  have r: "0 \<le> r" "r < d" using assms by (simp_all add: r_def)
  from round_half_even_cases [of n d] show ?thesis
  proof
    assume h: "round_half_even n d = n div d \<and> 2 * (n mod d) \<le> d"
    then have "2 * d * round_half_even n d = 2 * p" by (simp add: p_def)
    moreover from h have "2 * r \<le> d" by (simp add: r_def)
    ultimately show ?thesis using eq r by linarith
  next
    assume h: "round_half_even n d = n div d + 1 \<and> d \<le> 2 * (n mod d)"
    then have "2 * d * round_half_even n d = 2 * p + 2 * d" by (simp add: p_def algebra_simps)
    moreover from h have "d \<le> 2 * r" by (simp add: r_def)
    ultimately show ?thesis using eq r by linarith
  qed
qed

lemma round_half_even_real:
  assumes "0 < d"
  shows "\<bar>real_of_int (round_half_even n d) - real_of_int n / real_of_int d\<bar> \<le> 1 / 2"
proof -
  let ?m = "round_half_even n d"
  have a: "real_of_int (2 * d * ?m) \<le> real_of_int (2 * n + d)"
    using round_half_even_bounds [OF assms, of n] by (simp only: of_int_le_iff)
  have b: "real_of_int (2 * n - d) \<le> real_of_int (2 * d * ?m)"
    using round_half_even_bounds [OF assms, of n] by (simp only: of_int_le_iff)
  have d: "0 < real_of_int d" using assms by simp
  have u: "real_of_int ?m - real_of_int n / real_of_int d \<le> 1 / 2"
    using a d by (simp add: field_simps)
  have l: "- (1 / 2) \<le> real_of_int ?m - real_of_int n / real_of_int d"
    using b d by (simp add: field_simps)
  from u l show ?thesis by linarith
qed



lemma floor_log2_lower:
  assumes "0 < n" "0 < d"
  shows "2 powi (floor_log2 n d) \<le> real_of_int n / real_of_int d"
proof -
  define e0 where "e0 = bitlen n - bitlen d"
  have dpos: "0 < real_of_int d" using assms by simp
  show ?thesis
  proof (cases "d * 2 ^ nat e0 \<le> n * 2 ^ nat (- e0)")
    case True
    then have "real_of_int (d * 2 ^ nat e0) \<le> real_of_int (n * 2 ^ nat (- e0))"
      by (simp only: of_int_le_iff)
    then have "real_of_int d * 2 ^ nat e0 \<le> real_of_int n * 2 ^ nat (- e0)" by simp
    then have "(2::real) ^ nat e0 / 2 ^ nat (- e0) \<le> real_of_int n / real_of_int d"
      using dpos by (simp add: field_simps)
    moreover have "floor_log2 n d = e0" using True by (simp add: floor_log2_def e0_def Let_def)
    ultimately show ?thesis by (simp only: pow2_split)
  next
    case False
    then have fl: "floor_log2 n d = e0 - 1" by (simp add: floor_log2_def e0_def Let_def)
    have bn: "2 ^ nat (bitlen n - 1) \<le> n" using bitlen_bounds [OF assms(1)] by simp
    have bd: "d < 2 ^ nat (bitlen d)" using bitlen_bounds [OF assms(2)] by simp
    have n1: "1 \<le> bitlen n" using assms(1) bitlen_eq_zero_iff [of n] bitlen_nonneg [of n] by linarith
    have d1: "0 \<le> bitlen d" by (rule bitlen_nonneg)
    have "real_of_int (2 ^ nat (bitlen n - 1)) \<le> real_of_int n" using bn by (simp only: of_int_le_iff)
    then have rn: "2 powi (bitlen n - 1) \<le> real_of_int n" using n1 by (simp add: power_int_def)
    have "real_of_int d \<le> real_of_int (2 ^ nat (bitlen d))" using bd by (simp only: of_int_le_iff less_imp_le)
    then have rd: "real_of_int d \<le> 2 powi (bitlen d)" using d1 by (simp add: power_int_def)
    have "2 powi (e0 - 1) = 2 powi (bitlen n - 1) / (2::real) powi (bitlen d)"
      by (simp add: e0_def power_int_diff)
    also have "\<dots> \<le> real_of_int n / real_of_int d"
      using rn rd dpos assms by (intro frac_le) simp_all
    finally show ?thesis by (simp only: fl)
  qed
qed

lemma round_binary64_error:
  assumes "0 < n" "0 < d" "round_binary64 n d = Finite m e"
  shows "\<bar>float_val (Finite m e) - real_of_int n / real_of_int d\<bar>
           \<le> real_of_int n / real_of_int d * rel_err + abs_err"
proof -
  define x where "x = real_of_int n / real_of_int d"
  define e' where "e' = max (floor_log2 n d - 52) (- 1074)"
  define m' where "m' = round_half_even (n * 2 ^ nat (- e')) (d * 2 ^ nat e')"
  have res: "m = m'" "e = e'"
    using assms unfolding round_binary64_def Let_def e'_def m'_def by (auto split: if_splits)
  have xpos: "0 < x" using assms by (simp add: x_def)
  have dpos: "0 < d * 2 ^ nat e'" using assms by simp
  have "real_of_int (n * 2 ^ nat (- e')) / real_of_int (d * 2 ^ nat e') = x / (2 ^ nat e' / 2 ^ nat (- e'))"
    by (simp add: x_def)
  then have s: "real_of_int (n * 2 ^ nat (- e')) / real_of_int (d * 2 ^ nat e') = x / 2 powi e'"
    by (simp only: pow2_split)
  have "\<bar>real_of_int m' - x / 2 powi e'\<bar> \<le> 1 / 2"
    using round_half_even_real [OF dpos, of "n * 2 ^ nat (- e')"] by (simp only: m'_def s)
  then have "\<bar>real_of_int m' - x / 2 powi e'\<bar> * 2 powi e' \<le> 1 / 2 * 2 powi e'"
    by (intro mult_right_mono) simp_all
  moreover have "\<bar>real_of_int m' - x / 2 powi e'\<bar> * 2 powi e' = \<bar>real_of_int m' * 2 powi e' - x\<bar>"
  proof -
    have "\<bar>real_of_int m' - x / 2 powi e'\<bar> * 2 powi e' = \<bar>(real_of_int m' - x / 2 powi e') * 2 powi e'\<bar>"
      by (simp add: abs_mult)
    also have "(real_of_int m' - x / 2 powi e') * 2 powi e' = real_of_int m' * 2 powi e' - x"
      by (simp add: field_simps)
    finally show ?thesis .
  qed
  ultimately have err: "\<bar>real_of_int m' * 2 powi e' - x\<bar> \<le> 2 powi e' / 2" by simp
  have "2 powi e' / 2 \<le> x * rel_err + abs_err"
  proof (cases "- 1074 \<le> floor_log2 n d - 52")
    case True
    then have "e' = floor_log2 n d - 52" by (simp add: e'_def)
    then have "(2::real) powi e' = 2 powi (floor_log2 n d) / 2 ^ 52"
      by (simp add: power_int_diff)
    also have "\<dots> \<le> x / 2 ^ 52"
      using floor_log2_lower [OF assms(1,2)] by (simp add: x_def divide_right_mono)
    finally have "2 powi e' / 2 \<le> x * rel_err" by (simp add: rel_err_def)
    moreover have "0 \<le> abs_err" by (simp add: abs_err_def)
    ultimately show ?thesis by linarith
  next
    case False
    then have "e' = - 1074" by (simp add: e'_def)
    then have "(2::real) powi e' / 2 = abs_err" by (simp add: abs_err_def power_int_minus field_simps)
    moreover have "0 \<le> x * rel_err" using xpos by (simp add: rel_err_def)
    ultimately show ?thesis by linarith
  qed
  with err have "\<bar>real_of_int m' * 2 powi e' - x\<bar> \<le> x * rel_err + abs_err" by linarith
  then show ?thesis by (simp only: float_val_powi res x_def)
qed


lemma floor_log2_upper:
  assumes "0 < n" "0 < d"
  shows "real_of_int n / real_of_int d < 2 powi (floor_log2 n d + 1)"
proof -
  define e0 where "e0 = bitlen n - bitlen d"
  have dpos: "0 < real_of_int d" using assms by simp
  show ?thesis
  proof (cases "d * 2 ^ nat e0 \<le> n * 2 ^ nat (- e0)")
    case False
    then have "real_of_int (n * 2 ^ nat (- e0)) < real_of_int (d * 2 ^ nat e0)"
      by (simp only: of_int_less_iff not_le)
    then have "real_of_int n * 2 ^ nat (- e0) < real_of_int d * 2 ^ nat e0" by simp
    then have "real_of_int n / real_of_int d < (2::real) ^ nat e0 / 2 ^ nat (- e0)"
      using dpos by (simp add: field_simps)
    moreover have "floor_log2 n d + 1 = e0" using False by (simp add: floor_log2_def e0_def Let_def)
    ultimately show ?thesis by (simp only: pow2_split)
  next
    case True
    then have fl: "floor_log2 n d = e0" by (simp add: floor_log2_def e0_def Let_def)
    have bn: "n < 2 ^ nat (bitlen n)" using bitlen_bounds [OF assms(1)] by simp
    have bd: "2 ^ nat (bitlen d - 1) \<le> d" using bitlen_bounds [OF assms(2)] by simp
    have d1: "1 \<le> bitlen d" using assms(2) bitlen_eq_zero_iff [of d] bitlen_nonneg [of d] by linarith
    have n1: "0 \<le> bitlen n" by (rule bitlen_nonneg)
    have "real_of_int n < real_of_int (2 ^ nat (bitlen n))" using bn by (simp only: of_int_less_iff)
    then have rn: "real_of_int n < 2 powi (bitlen n)" using n1 by (simp add: power_int_def)
    have "real_of_int (2 ^ nat (bitlen d - 1)) \<le> real_of_int d" using bd by (simp only: of_int_le_iff)
    then have rd: "2 powi (bitlen d - 1) \<le> real_of_int d" using d1 by (simp add: power_int_def)
    have "real_of_int n / real_of_int d < 2 powi (bitlen n) / (2::real) powi (bitlen d - 1)"
      using rn rd dpos assms by (intro frac_less) simp_all
    also have "\<dots> = 2 powi (e0 + 1)"
    proof -
      have eq: "bitlen n - (bitlen d - 1) = e0 + 1" by (simp add: e0_def)
      have "2 powi (bitlen n) / (2::real) powi (bitlen d - 1) = 2 powi (bitlen n - (bitlen d - 1))"
        using power_int_diff [of "2::real" "bitlen n" "bitlen d - 1"] by simp
      then show ?thesis by (simp only: eq)
    qed
    finally show ?thesis by (simp only: fl)
  qed
qed

lemma round_half_even_nonneg: "0 \<le> n \<Longrightarrow> 0 < d \<Longrightarrow> 0 \<le> round_half_even n d"
  using round_half_even_cases [of n d] pos_imp_zdiv_nonneg_iff [of d n] by auto

lemma round_binary64_not_NaN: "round_binary64 n d \<noteq> NaN"
  by (simp add: round_binary64_def Let_def)

lemma round_binary64_nonneg:
  assumes "0 < n" "0 < d" "round_binary64 n d = Finite m e"
  shows "0 \<le> m"
proof -
  define e' where "e' = max (floor_log2 n d - 52) (- 1074)"
  have "m = round_half_even (n * 2 ^ nat (- e')) (d * 2 ^ nat e')"
    using assms unfolding round_binary64_def Let_def e'_def by (auto split: if_splits)
  moreover have "0 \<le> n * 2 ^ nat (- e')" "0 < d * 2 ^ nat e'" using assms by simp_all
  ultimately show ?thesis using round_half_even_nonneg by simp
qed

lemma round_binary64_below_threshold:
  assumes "0 < n" "0 < d" "round_binary64 n d = Finite m e"
  shows "float_val (Finite m e) < real_of_int overflow_threshold"
proof -
  define e' where "e' = max (floor_log2 n d - 52) (- 1074)"
  define m' where "m' = round_half_even (n * 2 ^ nat (- e')) (d * 2 ^ nat e')"
  have res: "m = m'" "e = e'" and lt: "m' * 2 ^ nat e' < overflow_threshold"
    using assms unfolding round_binary64_def Let_def e'_def m'_def by (auto split: if_splits)
  have m0: "0 \<le> m" using assms by (rule round_binary64_nonneg)
  have "real_of_int m * 2 ^ nat e / 2 ^ nat (- e) \<le> real_of_int m * 2 ^ nat e / 1"
    using m0 by (intro divide_left_mono) simp_all
  also have "\<dots> = real_of_int (m' * 2 ^ nat e')" by (simp add: res)
  also have "\<dots> < real_of_int overflow_threshold" using lt by (simp only: of_int_less_iff)
  finally show ?thesis by simp
qed

lemma div_le_real: "real_of_int (a div b) \<le> real_of_int a / real_of_int b"
proof -
  have "real_of_int (a div b) = real_of_int \<lfloor>real_of_int a / real_of_int b\<rfloor>"
    by (simp only: floor_divide_of_int_eq)
  then show ?thesis by (simp only: of_int_floor_le)
qed

lemma py_int_le_val:
  assumes "0 \<le> m" "py_int (Finite m e) = Inr k"
  shows "real_of_int k \<le> float_val (Finite m e)"
proof -
  have k: "k = (m * 2 ^ nat e) div 2 ^ nat (- e)"
    using assms by (cases "m = 0") (auto simp: sgn_if)
  have "real_of_int ((m * 2 ^ nat e) div 2 ^ nat (- e))
          \<le> real_of_int (m * 2 ^ nat e) / real_of_int (2 ^ nat (- e))"
    by (rule div_le_real)
  then show ?thesis by (simp add: k)
qed

lemma py_le_float_int_val:
  "py_le_float_int (Finite m e) k \<longleftrightarrow> float_val (Finite m e) \<le> real_of_int k"
proof -
  have "m * 2 ^ nat e \<le> k * 2 ^ nat (- e)
          \<longleftrightarrow> real_of_int (m * 2 ^ nat e) \<le> real_of_int (k * 2 ^ nat (- e))"
    by (simp only: of_int_le_iff)
  also have "\<dots> \<longleftrightarrow> real_of_int m * 2 ^ nat e / 2 ^ nat (- e) \<le> real_of_int k"
    by (simp add: field_simps)
  finally show ?thesis by simp
qed

lemma float_mul_fraction:
  "real_of_int (m1 * m2 * 2 ^ nat (e1 + e2)) / real_of_int (2 ^ nat (- (e1 + e2)))
     = float_val (Finite m1 e1) * float_val (Finite m2 e2)"
proof -
  have "real_of_int (m1 * m2 * 2 ^ nat (e1 + e2)) / real_of_int (2 ^ nat (- (e1 + e2)))
          = real_of_int m1 * real_of_int m2 * (2 ^ nat (e1 + e2) / 2 ^ nat (- (e1 + e2)))"
    by simp
  also have "\<dots> = real_of_int m1 * real_of_int m2 * (2 powi e1 * 2 powi e2)"
    using power_int_add [of "2::real" e1 e2] by (simp only: pow2_split) simp
  finally show ?thesis by (simp only: float_val_powi) simp
qed

section \<open>Properties of the bitrate search\<close>

lemma encode_attempts_step:
  "encode_attempts run mk mx a b =
     (case loop_body (run a (mk b)) mx b of
        Raises err \<Rightarrow> ([mk b], snd (run a (mk b)), Inl err)
      | Breaks kb \<Rightarrow> ([mk b], snd (run a (mk b)), Inr kb)
      | Continues kb b' \<Rightarrow>
          if Suc a < 5
          then (mk b # fst (encode_attempts run mk mx (Suc a) b'),
                snd (encode_attempts run mk mx (Suc a) b'))
          else ([mk b], snd (run a (mk b)), Inr kb))"
  by (subst encode_attempts.simps) (simp add: Let_def split: iteration.splits prod.splits)

lemma loop_body_Continues:
  assumes "loop_body outcome mx b = Continues kb b'"
  shows "\<exists>sz. outcome = (Exited 0, Some sz) \<and> py_truediv (int sz) 1024 = Inr kb
           \<and> \<not> py_le_float_int kb mx \<and> reduce_bitrate b = Inr b'"
  using assms unfolding loop_body_def
  by (auto split: prod.splits run_result.splits if_splits option.splits sum.splits)

lemma loop_body_Breaks:
  assumes "loop_body outcome mx b = Breaks kb"
  shows "\<exists>sz. outcome = (Exited 0, Some sz) \<and> py_truediv (int sz) 1024 = Inr kb
           \<and> py_le_float_int kb mx"
  using assms unfolding loop_body_def
  by (auto split: prod.splits run_result.splits if_splits option.splits sum.splits)

lemma loop_body_nonzero:
  assumes "fst outcome = Exited code" "code \<noteq> 0"
  shows "loop_body outcome mx b = Raises CalledProcessError"
  using assms unfolding loop_body_def by (auto split: prod.splits)

lemma encode_attempts_calls:
  "cmd \<in> set (fst (encode_attempts run mk mx a b)) \<Longrightarrow> \<exists>b'. cmd = mk b'"
proof (induction run mk mx a b rule: encode_attempts.induct)
  case (1 run mk mx a b)
  from "1.prems" show ?case
    by (subst (asm) encode_attempts_step) (auto split: iteration.splits if_splits dest: "1.IH" [OF refl refl])
qed

lemma encode_attempts_length:
  "a < 5 \<Longrightarrow> 1 \<le> length (fst (encode_attempts run mk mx a b))
     \<and> a + length (fst (encode_attempts run mk mx a b)) \<le> 5"
proof (induction run mk mx a b rule: encode_attempts.induct)
  case (1 run mk mx a b)
  show ?case
  proof (cases "loop_body (run a (mk b)) mx b")
    case (Continues kb b')
    show ?thesis
    proof (cases "Suc a < 5")
      case True
      from "1.IH" [OF refl refl Continues True True] show ?thesis
        by (subst encode_attempts_step, subst encode_attempts_step) (simp add: Continues True)
    next
      case False
      with "1.prems" show ?thesis by (subst encode_attempts_step, subst encode_attempts_step) (simp add: Continues)
    qed
  qed (use "1.prems" in \<open>subst encode_attempts_step, subst encode_attempts_step, simp\<close>)+
qed


lemma encode_attempts_Inr:
  "a < 5 \<Longrightarrow> snd (snd (encode_attempts run mk mx a b)) = Inr kb \<Longrightarrow>
     (\<exists>sz. fst (snd (encode_attempts run mk mx a b)) = Some sz
            \<and> py_truediv (int sz) 1024 = Inr kb)
     \<and> (py_le_float_int kb mx \<or> a + length (fst (encode_attempts run mk mx a b)) = 5)"
proof (induction run mk mx a b rule: encode_attempts.induct)
  case (1 run mk mx a b)
  show ?case
  proof (cases "loop_body (run a (mk b)) mx b")
    case (Raises err)
    with "1.prems" show ?thesis by (simp add: encode_attempts_step [of run mk mx a b])
  next
    case (Breaks kb')
    with "1.prems" loop_body_Breaks [OF Breaks] show ?thesis
      by (auto simp: encode_attempts_step [of run mk mx a b])
  next
    case (Continues kb' b')
    show ?thesis
    proof (cases "Suc a < 5")
      case True
      from "1.prems" True have "snd (snd (encode_attempts run mk mx (Suc a) b')) = Inr kb"
        by (simp add: encode_attempts_step [of run mk mx a b] Continues)
      from "1.IH" [OF refl refl Continues True True this] True show ?thesis
        by (simp add: encode_attempts_step [of run mk mx a b] Continues)
    next
      case False
      with "1.prems" loop_body_Continues [OF Continues] show ?thesis
        by (auto simp: encode_attempts_step [of run mk mx a b] Continues)
    qed
  qed
qed

lemma encode_attempts_nonzero_exit:
  "i < length (fst (encode_attempts run mk mx a b)) \<Longrightarrow>
   fst (run (a + i) (fst (encode_attempts run mk mx a b) ! i)) = Exited code \<Longrightarrow> code \<noteq> 0 \<Longrightarrow>
     Suc i = length (fst (encode_attempts run mk mx a b))
     \<and> snd (snd (encode_attempts run mk mx a b)) = Inl CalledProcessError"
proof (induction run mk mx a b arbitrary: i rule: encode_attempts.induct)
  case (1 run mk mx a b)
  show ?case
  proof (cases i)
    case 0
    with "1.prems" have "fst (run a (mk b)) = Exited code"
      by (simp add: encode_attempts_step [of run mk mx a b] split: iteration.splits if_splits)
    from loop_body_nonzero [OF this "1.prems"(3)] show ?thesis
      by (simp add: encode_attempts_step [of run mk mx a b] 0)
  next
    case (Suc j)
    with "1.prems"(1) obtain kb b' where Continues: "loop_body (run a (mk b)) mx b = Continues kb b'"
      and lt: "Suc a < 5"
      by (cases "loop_body (run a (mk b)) mx b")
         (auto simp: encode_attempts_step [of run mk mx a b] split: if_splits)
    from "1.prems" lt have j: "j < length (fst (encode_attempts run mk mx (Suc a) b'))"
      and ex: "fst (run (Suc a + j) (fst (encode_attempts run mk mx (Suc a) b') ! j)) = Exited code"
      by (simp_all add: encode_attempts_step [of run mk mx a b] Continues Suc)
    from "1.IH" [OF refl refl Continues lt j ex "1.prems"(3)] lt show ?thesis
      by (simp add: encode_attempts_step [of run mk mx a b] Continues Suc)
  qed
qed

lemma encode_attempts_schedule:
  "a < 5 \<Longrightarrow>
     fst (encode_attempts run mk mx a b)
       = map mk (take (length (fst (encode_attempts run mk mx a b))) (bitrate_schedule (5 - a) b))"
proof (induction run mk mx a b rule: encode_attempts.induct)
  case (1 run mk mx a b)
  from "1.prems" obtain n where n: "5 - a = Suc n" by (cases "5 - a") auto
  show ?case
  proof (cases "loop_body (run a (mk b)) mx b")
    case (Continues kb b')
    show ?thesis
    proof (cases "Suc a < 5")
      case True
      have n': "5 - Suc a = n" using n by simp
      from "1.IH" [OF refl refl Continues True True, unfolded n'] loop_body_Continues [OF Continues] True
      show ?thesis
        by (auto simp: encode_attempts_step [of run mk mx a b] Continues n)
    next
      case False
      then show ?thesis by (simp add: encode_attempts_step [of run mk mx a b] Continues n)
    qed
  qed (simp_all add: encode_attempts_step [of run mk mx a b] n)
qed


lemma eval_probe_ok: "probe_dimensions \<lparr>returncode = 0, stdout = ''1280,720''\<rparr> = Inr (1280, 720)"
  by code_simp

lemma eval_dims_1280_720: "convert_video_dims False 1280 720 = Inr (512, 288)"
  by code_simp

lemma eval_reduce_bitrate:
  "reduce_bitrate 300 = Inr 180" "reduce_bitrate 180 = Inr 108" "reduce_bitrate 108 = Inr 64"
  "reduce_bitrate 64 = Inr 38" "reduce_bitrate 150 = Inr 90" "reduce_bitrate 90 = Inr 54"
  "reduce_bitrate 54 = Inr 32" "reduce_bitrate 32 = Inr 19"
  "reduce_bitrate 38 = Inr 22" "reduce_bitrate 19 = Inr 11"
  by code_simp+

lemma eval_schedule:
  "bitrate_schedule 5 300 = [300, 180, 108, 64, 38]"
  "bitrate_schedule 5 150 = [150, 90, 54, 32, 19]"
  by (simp_all add: eval_nat_numeral eval_reduce_bitrate)

lemma eval_size_300000: "py_truediv 300000 1024 = Inr (Finite 5153960755200000 (- 44))"
  by code_simp

lemma convert_video_dims_icon: "convert_video_dims True w h = Inr (100, 100)"
  by (simp add: convert_video_dims_def ICON_SIZE_def)

lemma loop_body_oversized:
  "mx = 256 \<or> mx = 32 \<Longrightarrow> loop_body (Exited 0, Some 300000) mx b =
     (case reduce_bitrate b of Inl err \<Rightarrow> Raises err
      | Inr b' \<Rightarrow> Continues (Finite 5153960755200000 (- 44)) b')"
  by (auto simp: loop_body_def eval_size_300000)

lemma encode_oversized:
  assumes "mx = 256 \<or> mx = 32"
  shows "fst (encode_attempts (\<lambda>i cmd. (Exited 0, Some 300000)) mk mx 0 300) = map mk [300, 180, 108, 64, 38]"
    and "snd (encode_attempts (\<lambda>i cmd. (Exited 0, Some 300000)) mk mx 0 300)
           = (Some 300000, Inr (Finite 5153960755200000 (- 44)))"
    and "fst (encode_attempts (\<lambda>i cmd. (Exited 0, Some 300000)) mk mx 0 150) = map mk [150, 90, 54, 32, 19]"
    and "snd (encode_attempts (\<lambda>i cmd. (Exited 0, Some 300000)) mk mx 0 150)
           = (Some 300000, Inr (Finite 5153960755200000 (- 44)))"
  by (simp_all add: encode_attempts_step [of _ _ _ _ 300] encode_attempts_step [of _ _ _ _ 180]
        encode_attempts_step [of _ _ _ _ 108] encode_attempts_step [of _ _ _ _ 64]
        encode_attempts_step [of _ _ _ _ 38] encode_attempts_step [of _ _ _ _ 150]
        encode_attempts_step [of _ _ _ _ 90] encode_attempts_step [of _ _ _ _ 54]
        encode_attempts_step [of _ _ _ _ 32] encode_attempts_step [of _ _ _ _ 19]
        loop_body_oversized [OF assms] eval_reduce_bitrate)

lemma body_oversized:
  "convert_video_body world_oversized False
     = (map (make_cmd False 512 288) [300, 180, 108, 64, 38], Some 300000, Inr False)"
  "convert_video_body world_oversized True
     = (map (make_cmd True 100 100) [150, 90, 54, 32, 19], Some 300000, Inr False)"
  by (simp_all add: convert_video_body_def world_oversized_def probe_ok_def eval_probe_ok eval_dims_1280_720
        convert_video_dims_icon MAX_VIDEO_SIZE_KB_def MAX_ICON_SIZE_KB_def
        prod_eq_iff encode_oversized split: prod.splits sum.splits)

lemma body_encoder_rejects:
  "convert_video_body world_encoder_rejects False
     = ([make_cmd False 512 288 300], None, Inl CalledProcessError)"
  by (simp add: convert_video_body_def world_encoder_rejects_def probe_ok_def eval_probe_ok eval_dims_1280_720
        MAX_VIDEO_SIZE_KB_def encode_attempts_step [of _ _ _ 0 300] loop_body_def)


lemma convert_video_body_cases:
  obtains (not_reached) err where "convert_video_body world is_icon = ([], None, Inl err)"
  | (reached) result width height nw nh where
      "ffprobe world = Inr result"
      "probe_dimensions result = Inr (width, height)"
      "convert_video_dims is_icon width height = Inr (nw, nh)"
      "convert_video_body world is_icon =
         (fst (encode_attempts (ffmpeg world) (make_cmd is_icon nw nh)
                (if is_icon then MAX_ICON_SIZE_KB else MAX_VIDEO_SIZE_KB) 0 (if is_icon then 150 else 300)),
          fst (snd (encode_attempts (ffmpeg world) (make_cmd is_icon nw nh)
                (if is_icon then MAX_ICON_SIZE_KB else MAX_VIDEO_SIZE_KB) 0 (if is_icon then 150 else 300))),
          case snd (snd (encode_attempts (ffmpeg world) (make_cmd is_icon nw nh)
                (if is_icon then MAX_ICON_SIZE_KB else MAX_VIDEO_SIZE_KB) 0 (if is_icon then 150 else 300))) of
            Inl err \<Rightarrow> Inl err
          | Inr kb \<Rightarrow>
              Inr (fst (snd (encode_attempts (ffmpeg world) (make_cmd is_icon nw nh)
                     (if is_icon then MAX_ICON_SIZE_KB else MAX_VIDEO_SIZE_KB) 0
                     (if is_icon then 150 else 300))) \<noteq> None
                   \<and> py_le_float_int kb (if is_icon then MAX_ICON_SIZE_KB else MAX_VIDEO_SIZE_KB)))"
proof (cases "ffprobe world")
  case (Inl err)
  then have "convert_video_body world is_icon = ([], None, Inl err)"
    by (simp add: convert_video_body_def)
  then show ?thesis by (rule not_reached)
next
  case probe: (Inr result)
  show ?thesis
  proof (cases "probe_dimensions result")
    case (Inl err)
    with probe have "convert_video_body world is_icon = ([], None, Inl err)"
      by (simp add: convert_video_body_def)
    then show ?thesis by (rule not_reached)
  next
    case (Inr dims)
    obtain width height where dims: "dims = (width, height)" by (cases dims)
    show ?thesis
    proof (cases "convert_video_dims is_icon width height")
      case (Inl err)
      with probe Inr dims have "convert_video_body world is_icon = ([], None, Inl err)"
        by (simp add: convert_video_body_def)
      then show ?thesis by (rule not_reached)
    next
      case new: (Inr new_dims)
      obtain nw nh where new_dims: "new_dims = (nw, nh)" by (cases new_dims)
      show ?thesis
      proof (rule reached [of result width height nw nh])
        show "ffprobe world = Inr result" by (rule probe)
        show "probe_dimensions result = Inr (width, height)" using Inr dims by simp
        show "convert_video_dims is_icon width height = Inr (nw, nh)" using new new_dims by simp
      next
        show "convert_video_body world is_icon =
         (fst (encode_attempts (ffmpeg world) (make_cmd is_icon nw nh)
                (if is_icon then MAX_ICON_SIZE_KB else MAX_VIDEO_SIZE_KB) 0 (if is_icon then 150 else 300)),
          fst (snd (encode_attempts (ffmpeg world) (make_cmd is_icon nw nh)
                (if is_icon then MAX_ICON_SIZE_KB else MAX_VIDEO_SIZE_KB) 0 (if is_icon then 150 else 300))),
          case snd (snd (encode_attempts (ffmpeg world) (make_cmd is_icon nw nh)
                (if is_icon then MAX_ICON_SIZE_KB else MAX_VIDEO_SIZE_KB) 0 (if is_icon then 150 else 300))) of
            Inl err \<Rightarrow> Inl err
          | Inr kb \<Rightarrow>
              Inr (fst (snd (encode_attempts (ffmpeg world) (make_cmd is_icon nw nh)
                     (if is_icon then MAX_ICON_SIZE_KB else MAX_VIDEO_SIZE_KB) 0
                     (if is_icon then 150 else 300))) \<noteq> None
                   \<and> py_le_float_int kb (if is_icon then MAX_ICON_SIZE_KB else MAX_VIDEO_SIZE_KB)))"
          using probe Inr dims new new_dims
          by (simp add: convert_video_body_def Let_def split: prod.splits sum.splits)
      qed
    qed
  qed
qed

lemma encoder_calls_cases:
  obtains (not_reached) "encoder_calls world is_icon = []"
  | (reached) width height nw nh mx where
      "convert_video_dims is_icon width height = Inr (nw, nh)"
      "encoder_calls world is_icon =
         fst (encode_attempts (ffmpeg world) (make_cmd is_icon nw nh) mx 0 (if is_icon then 150 else 300))"
proof (cases world is_icon rule: convert_video_body_cases)
  case (not_reached err)
  then have "encoder_calls world is_icon = []" by (simp add: encoder_calls_def)
  then show ?thesis by (rule that(1))
next
  case (reached result width height nw nh)
  show ?thesis
    by (rule that(2) [OF reached(3)]) (simp add: encoder_calls_def reached(4))
qed

lemma bitrate_k_make_cmd: "bitrate_k \<circ> make_cmd is_icon nw nh = id"
  by (rule ext) (simp add: make_cmd_def)

lemma encoder_calls_schedule:
  "map bitrate_k (encoder_calls world is_icon)
     = take (length (encoder_calls world is_icon))
         (if is_icon then [150, 90, 54, 32, 19] else [300, 180, 108, 64, 38])"
proof (cases world is_icon rule: encoder_calls_cases)
  case not_reached
  then show ?thesis by simp
next
  case (reached width height nw nh mx)
  let ?calls = "fst (encode_attempts (ffmpeg world) (make_cmd is_icon nw nh) mx 0 (if is_icon then 150 else 300))"
  have "0 < (5::nat)" by simp
  from encode_attempts_schedule [OF this, of "ffmpeg world" "make_cmd is_icon nw nh" mx "if is_icon then 150 else 300"]
  have "map bitrate_k ?calls
          = map bitrate_k (map (make_cmd is_icon nw nh)
              (take (length ?calls) (bitrate_schedule 5 (if is_icon then 150 else 300))))"
    by simp
  also have "\<dots> = take (length ?calls) (bitrate_schedule 5 (if is_icon then 150 else 300))"
    by (simp only: map_map bitrate_k_make_cmd) simp
  finally show ?thesis by (simp add: reached(2) eval_schedule)
qed

lemma encoder_calls_length: "length (encoder_calls world is_icon) \<le> 5"
proof (cases world is_icon rule: encoder_calls_cases)
  case not_reached
  then show ?thesis by simp
next
  case (reached width height nw nh mx)
  have "0 < (5::nat)" by simp
  from encode_attempts_length [OF this] show ?thesis by (simp add: reached(2))
qed

lemma schedule_step:
  assumes "Suc i < 5"
  shows "5 * [300, 180, 108, 64, 38::int] ! Suc i \<le> 3 * [300, 180, 108, 64, 38] ! i"
    and "5 * [150, 90, 54, 32, 19::int] ! Suc i \<le> 3 * [150, 90, 54, 32, 19] ! i"
    and "reduce_bitrate ([300, 180, 108, 64, 38] ! i) = Inr ([300, 180, 108, 64, 38] ! Suc i)"
    and "reduce_bitrate ([150, 90, 54, 32, 19] ! i) = Inr ([150, 90, 54, 32, 19] ! Suc i)"
proof -
  from assms have "i = 0 \<or> i = 1 \<or> i = 2 \<or> i = 3" by arith
  then show "5 * [300, 180, 108, 64, 38::int] ! Suc i \<le> 3 * [300, 180, 108, 64, 38] ! i"
    and "5 * [150, 90, 54, 32, 19::int] ! Suc i \<le> 3 * [150, 90, 54, 32, 19] ! i"
    and "reduce_bitrate ([300, 180, 108, 64, 38] ! i) = Inr ([300, 180, 108, 64, 38] ! Suc i)"
    and "reduce_bitrate ([150, 90, 54, 32, 19] ! i) = Inr ([150, 90, 54, 32, 19] ! Suc i)"
    by (auto simp: eval_reduce_bitrate)
qed


lemma convert_video_dims_regular:
  "convert_video_dims False w h =
     (case resize_image_dims False w h of
        Inl err \<Rightarrow> Inl err
      | Inr (a, b) \<Rightarrow> Inr (ensure_even a, ensure_even b))"
  by (simp add: convert_video_dims_def resize_image_dims_def split: sum.splits)


lemma encoder_calls_scale:
  assumes "cmd \<in> set (encoder_calls world is_icon)"
  shows "\<exists>w h. convert_video_dims is_icon w h = Inr (scale_width cmd, scale_height cmd)"
proof (cases world is_icon rule: encoder_calls_cases)
  case not_reached
  with assms show ?thesis by simp
next
  case (reached width height nw nh mx)
  from assms obtain b where "cmd = make_cmd is_icon nw nh b"
    unfolding reached(2) by (auto dest: encode_attempts_calls)
  then have "scale_width cmd = nw" "scale_height cmd = nh" by (simp_all add: make_cmd_def)
  with reached(1) show ?thesis by auto
qed

lemma eval_resize_examples:
  "resize_image_dims False 1000 499 = Inr (512, 255)"
  "resize_image_dims False 1000 500 = Inr (512, 256)"
  "resize_image_dims False 49 49 = Inr (511, 511)"
  "convert_video_dims False 1000 500 = Inr (512, 256)"
  by code_simp+

lemma body_image_ok: "resize_image_body image_ok True = (Some (100, 100), Inr True)"
  by (simp add: resize_image_body_def image_ok_def resize_image_dims_def ICON_SIZE_def)

lemma py_int_of_str_error: "py_int_of_str s = Inl err \<Longrightarrow> err = ValueError"
  by (auto simp: py_int_of_str_def Let_def split: option.splits prod.splits if_splits)

lemma list_get_error: "list_get xs i = Inl err \<Longrightarrow> err = IndexError"
  by (auto simp: list_get_def split: if_splits)

lemma parse_dimensions_error:
  assumes "parse_dimensions out = Inl err"
  shows "err = ValueError \<or> err = IndexError"
  using assms unfolding parse_dimensions_def Let_def
  by (auto split: sum.splits dest: py_int_of_str_error list_get_error)

lemma probe_dimensions_eq:
  "probe_dimensions result =
     (case parse_dimensions (stdout result) of
        Inr dims \<Rightarrow> Inr dims
      | Inl err \<Rightarrow> Inr (1280, 720))"
  by (cases "parse_dimensions (stdout result)")
     (auto simp: probe_dimensions_def dest: parse_dimensions_error)

lemma eval_parse_examples:
  "parse_dimensions [] = Inl ValueError"
  "parse_dimensions ''1920'' = Inl IndexError"
  "parse_dimensions ''1920,abc'' = Inl ValueError"
  "parse_dimensions ''N/A,N/A'' = Inl ValueError"
  "parse_dimensions ''1920,1080\<newline>'' = Inr (1920, 1080)"
  "parse_dimensions ''1280,720'' = Inr (1280, 720)"
  by code_simp+

lemma eval_size_1000: "py_truediv 1000 1024 = Inr (Finite 8796093022208000 (- 53))"
  by code_simp

lemma body_fits:
  "convert_video_body world_fits False = ([make_cmd False 512 288 300], Some 1000, Inr True)"
  by (simp add: convert_video_body_def world_fits_def probe_ok_def eval_probe_ok eval_dims_1280_720
        MAX_VIDEO_SIZE_KB_def encode_attempts_step [of _ _ _ 0 300] loop_body_def eval_size_1000)

lemma body_probe_missing:
  "convert_video_body world_probe_missing False = ([], None, Inl OSError)"
  by (simp add: convert_video_body_def world_probe_missing_def)



section \<open>Properties of the batch\<close>

























section \<open>Bounds of the scaled dimensions\<close>

lemma err_small:
  "0 < rel_err" "rel_err \<le> 1 / 1000000" "0 < abs_err" "abs_err \<le> 1 / 1000000"
  "real_of_int overflow_threshold * abs_err \<le> 1 / 1000000"
proof -
  show "0 < rel_err" "rel_err \<le> 1 / 1000000" by (simp_all add: rel_err_def)
  show "0 < abs_err" by (simp add: abs_err_def)
  define T :: real where "T = 2 ^ 1024"
  have T: "real_of_int overflow_threshold = T" by (simp add: overflow_threshold_def T_def)
  have T1: "1 \<le> T" unfolding T_def by (rule one_le_power) simp
  have "(2::real) ^ 1075 = 2 ^ (1024 + 51)" by simp
  also have "\<dots> = T * 2 ^ 51" unfolding T_def by (rule power_add)
  finally have ae: "abs_err = 1 / (T * 2 ^ 51)" by (simp only: abs_err_def)
  have "T * abs_err = T * (1 / (T * 2 ^ 51))" by (simp only: ae)
  also have "\<dots> = 1 / 2 ^ 51" using T1 by simp
  finally have prod: "T * abs_err = 1 / 2 ^ 51" .
  then show "real_of_int overflow_threshold * abs_err \<le> 1 / 1000000" by (simp add: T)
  have "1 * abs_err \<le> T * abs_err"
    using \<open>0 < abs_err\<close> T1 by (intro mult_right_mono) simp_all
  with prod show "abs_err \<le> 1 / 1000000" by simp
qed

lemma round_binary64_pos:
  assumes "0 < n" "0 < d" "round_binary64 n d = x" "\<And>s. x \<noteq> Infinite s"
  obtains m e where "x = Finite m e" "0 \<le> m"
    "float_val x \<le> real_of_int n / real_of_int d * (1 + rel_err) + abs_err"
    "real_of_int n / real_of_int d * (1 - rel_err) - abs_err \<le> float_val x"
    "float_val x < real_of_int overflow_threshold"
proof -
  from assms(3,4) round_binary64_not_NaN [of n d] obtain m e where x: "x = Finite m e"
    by (cases x) auto
  with assms(3) have r: "round_binary64 n d = Finite m e" by simp
  define q where "q = real_of_int n / real_of_int d"
  define v where "v = float_val x"
  have "\<bar>v - q\<bar> \<le> q * rel_err + abs_err"
    unfolding q_def v_def x by (rule round_binary64_error [OF assms(1,2) r])
  then have e: "v - q \<le> q * rel_err + abs_err" "- (q * rel_err + abs_err) \<le> v - q"
    by (simp_all only: abs_le_iff) simp_all
  show ?thesis
  proof (rule that [OF x])
    show "0 \<le> m" by (rule round_binary64_nonneg [OF assms(1,2) r])
    have "v \<le> q * (1 + rel_err) + abs_err" using e(1) by (simp add: algebra_simps)
    then show "float_val x \<le> real_of_int n / real_of_int d * (1 + rel_err) + abs_err"
      by (simp only: q_def v_def)
    have "q * (1 - rel_err) - abs_err \<le> v" using e(2) by (simp add: algebra_simps)
    then show "real_of_int n / real_of_int d * (1 - rel_err) - abs_err \<le> float_val x"
      by (simp only: q_def v_def)
    show "float_val x < real_of_int overflow_threshold"
      unfolding x by (rule round_binary64_below_threshold [OF assms(1,2) r])
  qed
qed

lemma py_truediv_Inr:
  assumes "py_truediv a b = Inr x"
  shows "b \<noteq> 0" "round_binary64 a b = x" "x \<noteq> Infinite s"
  using assms by (auto simp: py_truediv_def split: if_splits pyfloat.splits)

lemma py_float_of_int_Inr:
  assumes "py_float_of_int n = Inr x"
  shows "round_binary64 n 1 = x" "x \<noteq> Infinite s"
  using assms by (auto simp: py_float_of_int_def split: pyfloat.splits)

lemma float_val_nonneg: "0 \<le> m \<Longrightarrow> 0 \<le> float_val (Finite m e)"
  by simp

lemma scale_dimension_le:
  assumes side: "0 < side" "side \<le> mx"
    and ratio: "py_truediv 512 mx = Inr ratio"
    and scaled: "scale_dimension side ratio = Inr k"
  shows "k \<le> 512"
proof -
  define s where "s = real_of_int side"
  define M where "M = real_of_int mx"
  define c where "c = 1 + rel_err"
  have sM: "0 < s" "s \<le> M" "1 \<le> M" using side by (simp_all add: s_def M_def)
  have c: "1 \<le> c" "c \<le> 1000001 / 1000000" using err_small by (simp_all add: c_def)
  note eta = err_small(3,4,5)
  from side have mx: "0 < mx" by simp
  have "(0::int) < 512" by simp
  from round_binary64_pos [OF this mx py_truediv_Inr(2) [OF ratio] py_truediv_Inr(3) [OF ratio]]
  obtain mr er where r: "ratio = Finite mr er" "0 \<le> mr"
    and R': "float_val ratio \<le> real_of_int 512 / real_of_int mx * (1 + rel_err) + abs_err"
    by blast
  from R' have R: "float_val ratio \<le> 512 / M * c + abs_err" by (simp add: M_def c_def)
  from scaled obtain y where y: "py_float_of_int side = Inr y"
    and k: "py_int (py_float_mul y ratio) = Inr k"
    by (auto simp: scale_dimension_def py_mul_int_float_def split: sum.splits)
  have "(0::int) < 1" by simp
  from round_binary64_pos [OF side(1) this py_float_of_int_Inr(1) [OF y] py_float_of_int_Inr(2) [OF y]]
  obtain my ey where f: "y = Finite my ey" "0 \<le> my"
    and Y': "float_val y \<le> real_of_int side / real_of_int 1 * (1 + rel_err) + abs_err"
    and YT: "float_val y < real_of_int overflow_threshold"
    by blast
  from Y' have Y: "float_val y \<le> s * c + abs_err" by (simp add: s_def c_def)
  define P where "P = float_val y * float_val ratio"
  have Y0: "0 \<le> float_val y" and R0: "0 \<le> float_val ratio"
    using f r by simp_all
  have P: "P \<le> 512003 / 1000"
  proof -
    have "P \<le> float_val y * (512 / M * c + abs_err)"
      unfolding P_def using R Y0 by (rule mult_left_mono)
    also have "\<dots> = float_val y * (512 / M * c) + float_val y * abs_err"
      by (simp add: algebra_simps)
    also have "float_val y * (512 / M * c) \<le> (s * c + abs_err) * (512 / M * c)"
      using Y sM c by (intro mult_right_mono) simp_all
    also have "(s * c + abs_err) * (512 / M * c) = 512 * c * ((s * c + abs_err) / M)"
      by simp
    also have "(s * c + abs_err) / M \<le> c + abs_err"
    proof -
      have "s * c \<le> M * c" using sM c by (intro mult_right_mono) simp_all
      moreover have "abs_err \<le> M * abs_err" using sM eta by simp
      ultimately have "s * c + abs_err \<le> (c + abs_err) * M" by (simp add: algebra_simps)
      then show ?thesis using sM by (simp add: pos_divide_le_eq)
    qed
    also have "float_val y * abs_err \<le> real_of_int overflow_threshold * abs_err"
      using YT eta by (intro mult_right_mono) simp_all
    also have "512 * c * (c + abs_err) + real_of_int overflow_threshold * abs_err
                 \<le> 512 * (1000001 / 1000000) * (1000001 / 1000000 + 1 / 1000000) + 1 / 1000000"
      using c eta by (intro add_mono mult_mono) simp_all
    also have "\<dots> \<le> 512003 / 1000" by simp
    finally show ?thesis using c by simp
  qed
  have P0: "0 \<le> P" unfolding P_def using Y0 R0 by simp
  let ?n = "my * mr * 2 ^ nat (ey + er)"
  let ?d = "(2::int) ^ nat (- (ey + er))"
  have mul: "py_float_mul y ratio = round_binary64 ?n ?d" by (simp add: f r)
  have frac: "real_of_int ?n / real_of_int ?d = P"
    unfolding P_def f r by (rule float_mul_fraction)
  show ?thesis
  proof (cases "my * mr = 0")
    case True
    then have "py_float_mul y ratio = Finite 0 0" by (simp add: mul round_binary64_def)
    with k show ?thesis by simp
  next
    case False
    with f r have n: "0 < ?n" by (simp add: zero_less_mult_iff less_le)
    have d: "0 < ?d" by simp
    from k have noinf: "\<And>s. py_float_mul y ratio \<noteq> Infinite s" by auto
    from round_binary64_pos [OF n d mul [symmetric] noinf]
    obtain m e where x: "py_float_mul y ratio = Finite m e" "0 \<le> m"
      and X': "float_val (py_float_mul y ratio) \<le> real_of_int ?n / real_of_int ?d * (1 + rel_err) + abs_err"
      by blast
    from X' have X: "float_val (py_float_mul y ratio) \<le> P * c + abs_err"
      by (simp only: frac c_def)
    have "real_of_int k \<le> float_val (Finite m e)"
      using x(2) k by (intro py_int_le_val) (simp_all add: x(1))
    also have "\<dots> \<le> P * c + abs_err" using X by (simp add: x(1))
    also have "\<dots> \<le> 512003 / 1000 * (1000001 / 1000000) + 1 / 1000000"
      using P P0 c eta by (intro add_mono mult_mono) simp_all
    also have "\<dots> < 513" by simp
    finally have "real_of_int k < real_of_int 513" by simp
    then have "k < 513" by (simp only: of_int_less_iff)
    then show ?thesis by simp
  qed
qed

lemma resize_image_dims_le:
  assumes "0 < w" "0 < h" "resize_image_dims False w h = Inr (a, b)"
  shows "a \<le> 512 \<and> b \<le> 512"
proof -
  from assms(3) obtain ratio where ratio: "py_truediv 512 (max w h) = Inr ratio"
    and a: "scale_dimension w ratio = Inr a" and b: "scale_dimension h ratio = Inr b"
    by (auto simp: resize_image_dims_def MAX_IMAGE_SIZE_def split: sum.splits)
  have "a \<le> 512" by (rule scale_dimension_le [OF assms(1) _ ratio a]) simp
  moreover have "b \<le> 512" by (rule scale_dimension_le [OF assms(2) _ ratio b]) simp
  ultimately show ?thesis by simp
qed

lemma ensure_even_le_512: "n \<le> 512 \<Longrightarrow> ensure_even n \<le> 512"
  unfolding ensure_even_def by presburger

lemma convert_video_dims_le:
  assumes "0 < w" "0 < h" "convert_video_dims False w h = Inr (nw, nh)"
  shows "nw \<le> 512 \<and> nh \<le> 512"
proof -
  from assms(3) obtain a b where img: "resize_image_dims False w h = Inr (a, b)"
    and new: "nw = ensure_even a" "nh = ensure_even b"
    by (cases "resize_image_dims False w h") (auto simp: convert_video_dims_regular)
  from resize_image_dims_le [OF assms(1,2) img] show ?thesis
    by (simp add: new ensure_even_le_512)
qed

lemma encoder_calls_scale_probed:
  assumes "ffprobe world = Inr result" "probe_dimensions result = Inr (w, h)"
    and "cmd \<in> set (encoder_calls world is_icon)"
  shows "convert_video_dims is_icon w h = Inr (scale_width cmd, scale_height cmd)"
proof (cases world is_icon rule: convert_video_body_cases)
  case (not_reached err)
  with assms(3) show ?thesis by (simp add: encoder_calls_def)
next
  case (reached result' width height nw nh)
  with assms(1,2) have dims: "convert_video_dims is_icon w h = Inr (nw, nh)" by simp
  from assms(3) obtain b where "cmd = make_cmd is_icon nw nh b"
    unfolding encoder_calls_def reached(4) by (auto dest: encode_attempts_calls)
  then have "scale_width cmd = nw" "scale_height cmd = nh" by (simp_all add: make_cmd_def)
  with dims show ?thesis by simp
qed

lemma eval_dims_49: "convert_video_dims False 49 49 = Inr (512, 512)"
  by code_simp

section \<open>Properties of the size check and the probe\<close>

lemma eval_size_budget:
  "py_truediv 262144 1024 = Inr (Finite 4503599627370496 (- 44))"
  "py_truediv 32768 1024 = Inr (Finite 4503599627370496 (- 47))"
  "py_truediv 0 1024 = Inr (Finite 0 0)"
  "py_le_float_int (Finite 4503599627370496 (- 44)) 256"
  "py_le_float_int (Finite 4503599627370496 (- 47)) 32"
  by code_simp+

text \<open>
  Line 131, \<^verbatim>\<open>os.path.getsize(output_path) / 1024\<close>, and line 133: the comparison of the
  float with the limit decides whether the size in bytes is at most 1024 times the limit.
\<close>

lemma size_check:
  assumes kb: "py_truediv (int sz) 1024 = Inr kb" and K: "K = 256 \<or> K = 32"
  shows "py_le_float_int kb K \<longleftrightarrow> int sz \<le> 1024 * K"
proof -
  have "sz = 0 \<or> int sz = 1024 * K \<or> (0 < sz \<and> int sz < 1024 * K) \<or> 1024 * K < int sz"
    by linarith
  then consider (zero) "sz = 0" | (exact) "int sz = 1024 * K" | (below) "0 < sz" "int sz < 1024 * K"
    | (above) "1024 * K < int sz"
    by blast
  then show ?thesis
  proof cases
    case zero
    with kb K show ?thesis by (auto simp: eval_size_budget)
  next
    case exact
    with kb K show ?thesis by (auto simp: eval_size_budget)
  next
    case below
    have pos: "0 < int sz" "(0::int) < 1024" using below(1) by simp_all
    from py_truediv_Inr(2,3) [OF kb] have r: "round_binary64 (int sz) 1024 = kb"
      and ninf: "\<And>s. kb \<noteq> Infinite s" by blast+
    from round_binary64_pos [OF pos r ninf] obtain m e where x: "kb = Finite m e"
      and up: "float_val kb \<le> real_of_int (int sz) / real_of_int 1024 * (1 + rel_err) + abs_err"
      by blast
    define q where "q = real_of_int (int sz) / 1024"
    have "int sz \<le> 1024 * K - 1" using below(2) by simp
    then have "real_of_int (int sz) \<le> real_of_int (1024 * K - 1)" by (simp only: of_int_le_iff)
    then have q1: "q \<le> real_of_int K - 1 / 1024" by (simp add: q_def field_simps)
    have q0: "0 \<le> q" by (simp add: q_def)
    have K256: "real_of_int K \<le> 256" using K by auto
    have "q * rel_err \<le> q * (1 / 1000000)"
      by (rule mult_left_mono [OF err_small(2) q0])
    also have "\<dots> \<le> 256 * (1 / 1000000)" using q1 K256 by simp
    finally have qe: "q * rel_err \<le> 256 / 1000000" by simp
    have "float_val kb \<le> q * (1 + rel_err) + abs_err"
      using up by (simp add: q_def)
    also have "\<dots> = q + q * rel_err + abs_err"
      by (simp add: distrib_left)
    also have "\<dots> \<le> real_of_int K - 1 / 1024 + 256 / 1000000 + 1 / 1000000"
      using q1 qe err_small(4) by linarith
    also have "\<dots> \<le> real_of_int K" by simp
    finally have "float_val kb \<le> real_of_int K" .
    then have "py_le_float_int kb K" by (simp only: x py_le_float_int_val)
    with below(2) show ?thesis by simp
  next
    case above
    have pos: "0 < int sz" "(0::int) < 1024" using above K by auto
    from py_truediv_Inr(2,3) [OF kb] have r: "round_binary64 (int sz) 1024 = kb"
      and ninf: "\<And>s. kb \<noteq> Infinite s" by blast+
    from round_binary64_pos [OF pos r ninf] obtain m e where x: "kb = Finite m e"
      and low: "real_of_int (int sz) / real_of_int 1024 * (1 - rel_err) - abs_err \<le> float_val kb"
      by blast
    define q where "q = real_of_int (int sz) / 1024"
    define c :: real where "c = 1 - 1 / 1000000"
    have "1024 * K + 1 \<le> int sz" using above by simp
    then have "real_of_int (1024 * K + 1) \<le> real_of_int (int sz)" by (simp only: of_int_le_iff)
    then have q1: "real_of_int K + 1 / 1024 \<le> q" by (simp add: q_def field_simps)
    have K0: "0 \<le> real_of_int K" "real_of_int K \<le> 256" using K by auto
    have q0: "0 \<le> q" by (simp add: q_def)
    have c0: "0 \<le> c" by (simp add: c_def)
    have "c \<le> 1 - rel_err" using err_small(2) by (simp add: c_def)
    then have qc: "q * c \<le> q * (1 - rel_err)" by (rule mult_left_mono [OF _ q0])
    have "(real_of_int K + 1 / 1024) * c \<le> q * c" by (rule mult_right_mono [OF q1 c0])
    moreover have "real_of_int K + 1 / 1000000 < (real_of_int K + 1 / 1024) * c"
      using K0 by (simp add: c_def algebra_simps)
    ultimately have "real_of_int K + 1 / 1000000 < q * (1 - rel_err)" using qc by linarith
    then have "real_of_int K < q * (1 - rel_err) - abs_err" using err_small(4) by linarith
    also have "\<dots> \<le> float_val kb" using low by (simp add: q_def)
    finally have "\<not> float_val kb \<le> real_of_int K" by simp
    then have "\<not> py_le_float_int kb K" by (simp only: x py_le_float_int_val not_False_eq_True)
    with above show ?thesis by simp
  qed
qed

text \<open>What \<^verbatim>\<open>convert_video\<close> returns, from the end of the loop.\<close>

lemma convert_video_outcome:
  obtains (raised) err where "snd (snd (convert_video_body world is_icon)) = Inl err"
      "\<not> convert_video world is_icon" "raised world is_icon = Some err"
  | (returned) sz kb where
      "raised world is_icon = None"
      "output_file world is_icon = Some sz"
      "py_truediv (int sz) 1024 = Inr kb"
      "convert_video world is_icon
         \<longleftrightarrow> py_le_float_int kb (if is_icon then MAX_ICON_SIZE_KB else MAX_VIDEO_SIZE_KB)"
      "py_le_float_int kb (if is_icon then MAX_ICON_SIZE_KB else MAX_VIDEO_SIZE_KB)
         \<or> length (encoder_calls world is_icon) = 5"
      "1 \<le> length (encoder_calls world is_icon)"
proof (cases world is_icon rule: convert_video_body_cases)
  case (not_reached err)
  show ?thesis
    by (rule that(1) [of err]) (simp_all add: not_reached convert_video_def raised_def)
next
  case (reached result width height nw nh)
  let ?mx = "if is_icon then MAX_ICON_SIZE_KB else MAX_VIDEO_SIZE_KB"
  let ?run = "encode_attempts (ffmpeg world) (make_cmd is_icon nw nh) ?mx 0 (if is_icon then 150 else 300)"
  have five: "0 < (5::nat)" by simp
  show ?thesis
  proof (cases "snd (snd ?run)")
    case (Inl err)
    show ?thesis
      by (rule that(1) [of err]) (simp_all add: reached(4) Inl convert_video_def raised_def)
  next
    case (Inr kb)
    from encode_attempts_Inr [OF five Inr] obtain sz where
      sz: "fst (snd ?run) = Some sz" "py_truediv (int sz) 1024 = Inr kb"
      and fin: "py_le_float_int kb ?mx \<or> 0 + length (fst ?run) = 5"
      by blast
    from encode_attempts_length [OF five, of "ffmpeg world" "make_cmd is_icon nw nh" ?mx "if is_icon then 150 else 300"]
    have len: "1 \<le> length (fst ?run)" by blast
    show ?thesis
    proof (rule that(2) [of sz kb])
      show "raised world is_icon = None" by (simp add: raised_def reached(4) Inr)
      show "output_file world is_icon = Some sz" by (simp add: output_file_def reached(4) sz(1))
      show "py_truediv (int sz) 1024 = Inr kb" by (rule sz(2))
      show "convert_video world is_icon \<longleftrightarrow> py_le_float_int kb ?mx"
        by (simp add: convert_video_def reached(4) Inr sz(1))
      show "py_le_float_int kb ?mx \<or> length (encoder_calls world is_icon) = 5"
        using fin by (simp add: encoder_calls_def reached(4))
      show "1 \<le> length (encoder_calls world is_icon)"
        using len by (simp add: encoder_calls_def reached(4))
    qed
  qed
qed

lemma budget_cases: "(if is_icon then MAX_ICON_SIZE_KB else MAX_VIDEO_SIZE_KB) = 256
    \<or> (if is_icon then MAX_ICON_SIZE_KB else MAX_VIDEO_SIZE_KB) = 32"
  by (simp add: MAX_ICON_SIZE_KB_def MAX_VIDEO_SIZE_KB_def)

lemma convert_video_body_probe:
  assumes "probe_dimensions r1 = probe_dimensions r2"
  shows "convert_video_body (world\<lparr>ffprobe := Inr r1\<rparr>) is_icon
       = convert_video_body (world\<lparr>ffprobe := Inr r2\<rparr>) is_icon"
  using assms by (simp add: convert_video_body_def split: sum.splits prod.splits)

lemma convert_video_probe_raises:
  assumes "ffprobe world = Inl err"
  shows "convert_video_body world is_icon = ([], None, Inl err)"
  using assms by (simp add: convert_video_body_def)

lemma world_fits_probe: "world_probe_missing\<lparr>ffprobe := probe_ok\<rparr> = world_fits"
  "world_fits\<lparr>ffprobe := probe_ok\<rparr> = world_fits"
  by (simp_all add: world_probe_missing_def world_fits_def)

section \<open>Claims\<close>

text \<open>
  C6. When the encoder process exits with a return code other than 0 on some attempt,
  that attempt is the last one (there is no retry at a lower bitrate), the exception
  \<^verbatim>\<open>CalledProcessError\<close> leaves the loop, and \<^verbatim>\<open>convert_video\<close> returns \<^verbatim>\<open>False\<close>.
\<close>

theorem encoder_failure_aborts:
  assumes "i < length (encoder_calls world is_icon)"
    and "fst (ffmpeg world i (encoder_calls world is_icon ! i)) = Exited code"
    and "code \<noteq> 0"
  shows "\<not> convert_video world is_icon
         \<and> length (encoder_calls world is_icon) = Suc i
         \<and> raised world is_icon = Some CalledProcessError"
proof (cases world is_icon rule: convert_video_body_cases)
  case (not_reached err)
  with assms(1) show ?thesis by (simp add: encoder_calls_def)
next
  case (reached result width height nw nh)
  let ?R = "encode_attempts (ffmpeg world) (make_cmd is_icon nw nh)
              (if is_icon then MAX_ICON_SIZE_KB else MAX_VIDEO_SIZE_KB) 0 (if is_icon then 150 else 300)"
  have calls: "encoder_calls world is_icon = fst ?R"
    by (simp add: encoder_calls_def reached(4))
  from assms(1,2) have "i < length (fst ?R)" "fst (ffmpeg world (0 + i) (fst ?R ! i)) = Exited code"
    by (simp_all add: calls)
  from encode_attempts_nonzero_exit [OF this assms(3)]
  show ?thesis
    by (simp add: convert_video_def raised_def encoder_calls_def reached(4))
qed

theorem encoder_failure_aborts_witness:
  "0 < length (encoder_calls world_encoder_rejects False)
   \<and> fst (ffmpeg world_encoder_rejects 0 (encoder_calls world_encoder_rejects False ! 0)) = Exited 1
   \<and> \<not> convert_video world_encoder_rejects False
   \<and> length (encoder_calls world_encoder_rejects False) = Suc 0
   \<and> raised world_encoder_rejects False = Some CalledProcessError"
proof -
  have a: "0 < length (encoder_calls world_encoder_rejects False)"
    by (simp add: encoder_calls_def body_encoder_rejects)
  have b: "fst (ffmpeg world_encoder_rejects 0 (encoder_calls world_encoder_rejects False ! 0)) = Exited 1"
    by (simp add: world_encoder_rejects_def)
  have c: "(1::int) \<noteq> 0" by simp
  from encoder_failure_aborts [OF a b c] a b show ?thesis by simp
qed

text \<open>
  C2. The bitrates of the encoder calls of one conversion are an initial segment of
  300, 180, 108, 64, 38 for a regular sticker and of 150, 90, 54, 32, 19 for an icon: the
  first is 300 or 150, each next one is \<^verbatim>\<open>int(bitrate * 0.6)\<close> of the one before and at
  most 0.6 times it, and there are at most 5 calls.
\<close>

theorem bitrate_search_schedule:
  "map bitrate_k (encoder_calls world is_icon)
     = take (length (encoder_calls world is_icon))
         (if is_icon then [150, 90, 54, 32, 19] else [300, 180, 108, 64, 38])
   \<and> length (encoder_calls world is_icon) \<le> 5
   \<and> (\<forall>i. Suc i < length (encoder_calls world is_icon) \<longrightarrow>
          5 * bitrate_k (encoder_calls world is_icon ! Suc i) \<le> 3 * bitrate_k (encoder_calls world is_icon ! i)
          \<and> reduce_bitrate (bitrate_k (encoder_calls world is_icon ! i))
              = Inr (bitrate_k (encoder_calls world is_icon ! Suc i)))"
proof (intro conjI allI impI)
  let ?calls = "encoder_calls world is_icon"
  let ?L = "if is_icon then [150, 90, 54, 32, 19] else [300, 180, 108, 64, 38::int]"
  show sched: "map bitrate_k ?calls = take (length ?calls) ?L" by (rule encoder_calls_schedule)
  show len: "length ?calls \<le> 5" by (rule encoder_calls_length)
  fix i assume i: "Suc i < length ?calls"
  with len have i5: "Suc i < 5" by simp
  have a: "bitrate_k (?calls ! i) = ?L ! i"
  proof -
    have "bitrate_k (?calls ! i) = map bitrate_k ?calls ! i" using i by simp
    also have "\<dots> = take (length ?calls) ?L ! i" by (simp only: sched)
    also have "\<dots> = ?L ! i" using i by simp
    finally show ?thesis .
  qed
  have b: "bitrate_k (?calls ! Suc i) = ?L ! Suc i"
  proof -
    have "bitrate_k (?calls ! Suc i) = map bitrate_k ?calls ! Suc i" using i by simp
    also have "\<dots> = take (length ?calls) ?L ! Suc i" by (simp only: sched)
    also have "\<dots> = ?L ! Suc i" using i by simp
    finally show ?thesis .
  qed
  show "5 * bitrate_k (?calls ! Suc i) \<le> 3 * bitrate_k (?calls ! i)"
    unfolding a b using schedule_step(1,2) [OF i5] by (cases is_icon) simp_all
  show "reduce_bitrate (bitrate_k (?calls ! i)) = Inr (bitrate_k (?calls ! Suc i))"
    unfolding a b using schedule_step(3,4) [OF i5] by (cases is_icon) simp_all
qed

theorem bitrate_search_schedule_witness:
  "map bitrate_k (encoder_calls world_oversized False) = [300, 180, 108, 64, 38]
   \<and> Suc 0 < length (encoder_calls world_oversized False)
   \<and> 5 * bitrate_k (encoder_calls world_oversized False ! Suc 0)
       \<le> 3 * bitrate_k (encoder_calls world_oversized False ! 0)"
proof -
  have len: "length (encoder_calls world_oversized False) = 5"
    by (simp add: encoder_calls_def body_oversized)
  then have lt: "Suc 0 < length (encoder_calls world_oversized False)" by simp
  from bitrate_search_schedule [of world_oversized False] len lt show ?thesis by simp
qed



text \<open>
  C7. For an icon, the size asked of the image resize and the numbers of the scale
  filter of every encoder call are \<open>(ICON_SIZE, ICON_SIZE)\<close>, that is 100 by 100, whatever
  the size of the source, which is not read on this branch.
\<close>

theorem icon_dimensions_fixed:
  "resize_image_dims True w h = Inr (100, 100)
   \<and> convert_video_dims True w h = Inr (100, 100)
   \<and> (\<forall>cmd \<in> set (encoder_calls world True). scale_width cmd = 100 \<and> scale_height cmd = 100)
   \<and> (\<forall>size. resize_request img True = Some size \<longrightarrow> size = (100, 100))
   \<and> ICON_SIZE = 100"
proof (intro conjI ballI allI impI)
  show "resize_image_dims True w h = Inr (100, 100)"
    by (simp add: resize_image_dims_def ICON_SIZE_def)
  show "convert_video_dims True w h = Inr (100, 100)" by (rule convert_video_dims_icon)
  show "ICON_SIZE = 100" by (simp add: ICON_SIZE_def)
next
  fix cmd assume "cmd \<in> set (encoder_calls world True)"
  from encoder_calls_scale [OF this] obtain w h
    where "convert_video_dims True w h = Inr (scale_width cmd, scale_height cmd)" by blast
  then show "scale_width cmd = 100" "scale_height cmd = 100"
    by (simp_all add: convert_video_dims_icon)
next
  fix size assume "resize_request img True = Some size"
  then show "size = (100, 100)"
    unfolding resize_request_def resize_image_body_def
    by (cases "image_open img"; cases "resize_and_save img (100, 100)")
       (auto simp: resize_image_dims_def ICON_SIZE_def)
qed

theorem icon_dimensions_fixed_witness:
  "make_cmd True 100 100 150 \<in> set (encoder_calls world_oversized True)
   \<and> scale_width (make_cmd True 100 100 150) = 100
   \<and> scale_height (make_cmd True 100 100 150) = 100
   \<and> resize_request image_ok True = Some (100, 100)
   \<and> resize_image_dims True 640 480 = Inr (100, 100)"
proof -
  have mem: "make_cmd True 100 100 150 \<in> set (encoder_calls world_oversized True)"
    by (simp add: encoder_calls_def body_oversized)
  have req: "resize_request image_ok True = Some (100, 100)"
    by (simp add: resize_request_def body_image_ok)
  note inst = icon_dimensions_fixed [of 640 480 world_oversized image_ok]
  from inst have a: "resize_image_dims True 640 480 = Inr (100, 100)" by (rule conjunct1)
  from inst [THEN conjunct2, THEN conjunct2, THEN conjunct1, rule_format, OF mem]
  have b: "scale_width (make_cmd True 100 100 150) = 100 \<and> scale_height (make_cmd True 100 100 150) = 100" .
  from a b mem req show ?thesis by simp
qed

text \<open>
  C3. The code computes \<^verbatim>\<open>int(width * (512 / max(width, height)))\<close> in binary64
  arithmetic. For a source of 49 by 49 the quotient \<^verbatim>\<open>512 / 49\<close> is rounded down, the
  product \<^verbatim>\<open>49 * ratio\<close> is 511.99999999999994, and the target is 511 by 511, where the
  claimed formula gives \<open>\<lfloor>49 * 512 / 49\<rfloor> = 512\<close>. The example of the claim, 1000 by 500,
  does give 512 by 256.
\<close>

theorem resize_49_by_49:
  "resize_image_dims False 49 49 = Inr (511, 511)
   \<and> \<lfloor>(49::real) * real_of_int MAX_IMAGE_SIZE / max 49 49\<rfloor> = 512
   \<and> resize_image_dims False 1000 500 = Inr (512, 256)"
  by (simp add: eval_resize_examples MAX_IMAGE_SIZE_def)

text \<open>
  C9. The dimensions that the probe step yields do not depend on the return code of the
  inspection process: they are the two integers parsed from its output when the parsing
  succeeds, also for a return code other than 0, and 1280 by 720 exactly when the parsing
  raises.
\<close>

theorem probe_ignores_exit_status:
  "probe_dimensions \<lparr>returncode = rc, stdout = out\<rparr> = probe_dimensions \<lparr>returncode = rc', stdout = out\<rparr>
   \<and> (\<forall>dims. parse_dimensions out = Inr dims \<longrightarrow>
         probe_dimensions \<lparr>returncode = rc, stdout = out\<rparr> = Inr dims)
   \<and> (\<forall>err. parse_dimensions out = Inl err \<longrightarrow>
         probe_dimensions \<lparr>returncode = rc, stdout = out\<rparr> = Inr (1280, 720))
   \<and> (probe_dimensions \<lparr>returncode = rc, stdout = out\<rparr> \<noteq> Inr (1280, 720) \<longrightarrow>
         parse_dimensions out = probe_dimensions \<lparr>returncode = rc, stdout = out\<rparr>)"
  by (cases "parse_dimensions out") (simp_all add: probe_dimensions_eq)

theorem probe_ignores_exit_status_witness:
  "parse_dimensions ''1920,1080\<newline>'' = Inr (1920, 1080)
   \<and> probe_dimensions \<lparr>returncode = 1, stdout = ''1920,1080\<newline>''\<rparr> = Inr (1920, 1080)
   \<and> parse_dimensions ''1920'' = Inl IndexError
   \<and> probe_dimensions \<lparr>returncode = 0, stdout = ''1920''\<rparr> = Inr (1280, 720)"
proof -
  note p = eval_parse_examples(5) eval_parse_examples(2)
  from probe_ignores_exit_status [of 1 "''1920,1080\<newline>''" 0, THEN conjunct2, THEN conjunct1, rule_format, OF p(1)]
    probe_ignores_exit_status [of 0 "''1920''" 0, THEN conjunct2, THEN conjunct2, THEN conjunct1, rule_format, OF p(2)]
    p
  show ?thesis by simp
qed




text \<open>
  C10. For a regular video with positive source width and height, the numbers computed
  by \<^verbatim>\<open>int(side * ratio)\<close> in binary64 arithmetic are at most 512, for every size of
  the source for which the computation returns; rounding an odd number up to the next
  even one keeps it at most 512, so the scale numbers of every encoder call are at
  most 512.
\<close>

theorem regular_video_dimensions_bounded:
  assumes "0 < w" "0 < h"
  shows "(\<forall>a b. resize_image_dims False w h = Inr (a, b) \<longrightarrow> a \<le> 512 \<and> b \<le> 512)
    \<and> (\<forall>nw nh. convert_video_dims False w h = Inr (nw, nh) \<longrightarrow>
          nw \<le> MAX_IMAGE_SIZE \<and> nh \<le> MAX_IMAGE_SIZE)
    \<and> (\<forall>result. ffprobe world = Inr result \<and> probe_dimensions result = Inr (w, h) \<longrightarrow>
          (\<forall>cmd \<in> set (encoder_calls world False).
             scale_width cmd \<le> MAX_IMAGE_SIZE \<and> scale_height cmd \<le> MAX_IMAGE_SIZE))"
proof (intro conjI allI impI ballI)
  fix a b assume "resize_image_dims False w h = Inr (a, b)"
  from resize_image_dims_le [OF assms this] show "a \<le> 512" "b \<le> 512" by simp_all
next
  fix nw nh assume "convert_video_dims False w h = Inr (nw, nh)"
  from convert_video_dims_le [OF assms this]
  show "nw \<le> MAX_IMAGE_SIZE" "nh \<le> MAX_IMAGE_SIZE" by (simp_all add: MAX_IMAGE_SIZE_def)
next
  fix result cmd
  assume probe: "ffprobe world = Inr result \<and> probe_dimensions result = Inr (w, h)"
    and cmd: "cmd \<in> set (encoder_calls world False)"
  from probe have p1: "ffprobe world = Inr result" and p2: "probe_dimensions result = Inr (w, h)"
    by blast+
  have "convert_video_dims False w h = Inr (scale_width cmd, scale_height cmd)"
    by (rule encoder_calls_scale_probed [OF p1 p2 cmd])
  from convert_video_dims_le [OF assms this]
  show "scale_width cmd \<le> MAX_IMAGE_SIZE" "scale_height cmd \<le> MAX_IMAGE_SIZE"
    by (simp_all add: MAX_IMAGE_SIZE_def)
qed

theorem regular_video_dimensions_bounded_witness:
  "(0::int) < 49
   \<and> convert_video_dims False 49 49 = Inr (512, 512)
   \<and> (512::int) \<le> MAX_IMAGE_SIZE"
proof -
  have pos: "(0::int) < 49" by simp
  from regular_video_dimensions_bounded [OF pos pos, of world_oversized,
      THEN conjunct2, THEN conjunct1, rule_format, OF eval_dims_49]
  show ?thesis by (simp add: eval_dims_49)
qed

text \<open>
  C1, as stated: \<^verbatim>\<open>convert_video\<close> returns success with a file within the budget, or
  failure after exactly 5 encoder calls. When the encoder exits with return code 1,
  \<^verbatim>\<open>convert_video\<close> returns \<^verbatim>\<open>False\<close> after one encoder call.
\<close>

theorem failure_after_one_attempt:
  "\<not> convert_video world_encoder_rejects False
   \<and> length (encoder_calls world_encoder_rejects False) = 1"
  by (simp add: convert_video_def encoder_calls_def body_encoder_rejects)

text \<open>
  C1, amended. When \<^verbatim>\<open>convert_video\<close> returns \<^verbatim>\<open>True\<close>, no exception was raised, between 1
  and 5 encoder calls were made, and the file at the output path has at most 1024 times
  the limit in bytes: 262144 for a regular sticker, 32768 for an icon. When it returns
  \<^verbatim>\<open>False\<close>, either an exception was raised in its body, after at most 5 encoder calls, or
  exactly 5 encoder calls were made and the file at the output path exceeds that number
  of bytes.
\<close>

theorem budget_or_failure:
  "(convert_video world is_icon \<longrightarrow>
      raised world is_icon = None
      \<and> 1 \<le> length (encoder_calls world is_icon) \<and> length (encoder_calls world is_icon) \<le> 5
      \<and> (\<exists>sz. output_file world is_icon = Some sz
            \<and> int sz \<le> 1024 * (if is_icon then MAX_ICON_SIZE_KB else MAX_VIDEO_SIZE_KB)))
   \<and> (\<not> convert_video world is_icon \<longrightarrow>
        (raised world is_icon \<noteq> None \<and> length (encoder_calls world is_icon) \<le> 5)
        \<or> (length (encoder_calls world is_icon) = 5
            \<and> (\<exists>sz. output_file world is_icon = Some sz
                  \<and> 1024 * (if is_icon then MAX_ICON_SIZE_KB else MAX_VIDEO_SIZE_KB) < int sz)))"
proof (cases world is_icon rule: convert_video_outcome)
  case (raised err)
  then show ?thesis by (simp add: encoder_calls_length)
next
  case (returned sz kb)
  note check = size_check [OF returned(3) budget_cases [of is_icon]]
  show ?thesis
  proof (cases "convert_video world is_icon")
    case True
    with returned(4) check have "int sz \<le> 1024 * (if is_icon then MAX_ICON_SIZE_KB else MAX_VIDEO_SIZE_KB)"
      by blast
    with True returned(1,2,6) encoder_calls_length [of world is_icon] show ?thesis by simp
  next
    case False
    with returned(4) check have "1024 * (if is_icon then MAX_ICON_SIZE_KB else MAX_VIDEO_SIZE_KB) < int sz"
      by (simp only: not_le [symmetric]) blast
    moreover from False returned(4,5) have "length (encoder_calls world is_icon) = 5" by blast
    ultimately show ?thesis using False returned(2) by simp
  qed
qed

theorem budget_or_failure_witness:
  "convert_video world_fits False \<and> output_file world_fits False = Some 1000
   \<and> length (encoder_calls world_fits False) = 1
   \<and> \<not> convert_video world_oversized True \<and> output_file world_oversized True = Some 300000
   \<and> length (encoder_calls world_oversized True) = 5
   \<and> raised world_oversized True = None"
proof -
  have fits: "convert_video world_fits False" "output_file world_fits False = Some 1000"
    "length (encoder_calls world_fits False) = 1"
    by (simp_all add: convert_video_def output_file_def encoder_calls_def body_fits)
  have over: "\<not> convert_video world_oversized True" "output_file world_oversized True = Some 300000"
    "length (encoder_calls world_oversized True) = 5" "raised world_oversized True = None"
    by (simp_all add: convert_video_def output_file_def encoder_calls_def raised_def body_oversized)
  from budget_or_failure [of world_fits False, THEN conjunct1, rule_format, OF fits(1)]
    budget_or_failure [of world_oversized True, THEN conjunct2, rule_format, OF over(1)]
    fits over
  show ?thesis by simp
qed

text \<open>
  C5, as stated: no failure of the probe makes the conversion fail. The inspection call of
  line 79 is outside the inner \<^verbatim>\<open>try\<close>: when \<^verbatim>\<open>subprocess.run\<close> raises because the process
  cannot be started, the exception reaches the outer handler and \<^verbatim>\<open>convert_video\<close>
  returns \<^verbatim>\<open>False\<close> without any encoder call, although with the same encoder and an
  inspection process that runs the conversion succeeds.
\<close>

theorem probe_launch_failure_fails_conversion:
  "ffprobe world_probe_missing = Inl OSError
   \<and> \<not> convert_video world_probe_missing False
   \<and> encoder_calls world_probe_missing False = []
   \<and> convert_video (world_probe_missing\<lparr>ffprobe := probe_ok\<rparr>) False
   \<and> convert_video (world_probe_missing\<lparr>ffprobe := Inr probe_failed\<rparr>) False"
proof -
  have "probe_dimensions probe_failed = Inr (1280, 720)"
    by (simp add: probe_dimensions_eq probe_failed_def eval_parse_examples(1))
  then have "probe_dimensions probe_failed = probe_dimensions \<lparr>returncode = 0, stdout = ''1280,720''\<rparr>"
    by (simp only: eval_probe_ok)
  from convert_video_body_probe [OF this, of world_probe_missing False]
  have "convert_video_body (world_probe_missing\<lparr>ffprobe := Inr probe_failed\<rparr>) False
      = convert_video_body world_fits False"
    by (simp add: world_fits_probe(1) [unfolded probe_ok_def])
  then show ?thesis
    by (simp add: convert_video_def encoder_calls_def body_probe_missing world_fits_probe body_fits)
       (simp add: world_probe_missing_def)
qed

text \<open>
  C5, amended. When the inspection process runs and its output cannot be parsed (the
  \<^verbatim>\<open>strip\<close>, \<^verbatim>\<open>split\<close>, index or \<^verbatim>\<open>int\<close> steps raise), whatever its return code, the probe
  step yields 1280 by 720 and the conversion goes on exactly as if the process had
  printed \<^verbatim>\<open>1280,720\<close>. When the inspection call itself raises, \<^verbatim>\<open>convert_video\<close> returns
  \<^verbatim>\<open>False\<close> and calls no encoder.
\<close>

theorem probe_fallback:
  "(\<forall>err. parse_dimensions (stdout result) = Inl err \<longrightarrow>
       probe_dimensions result = Inr (1280, 720)
       \<and> convert_video_body (world\<lparr>ffprobe := Inr result\<rparr>) is_icon
           = convert_video_body (world\<lparr>ffprobe := probe_ok\<rparr>) is_icon)
   \<and> (\<forall>err. ffprobe world = Inl err \<longrightarrow>
         \<not> convert_video world is_icon \<and> encoder_calls world is_icon = []
         \<and> raised world is_icon = Some err)"
proof (intro conjI allI impI)
  fix err assume "parse_dimensions (stdout result) = Inl err"
  then show d: "probe_dimensions result = Inr (1280, 720)"
    by (simp add: probe_dimensions_eq)
  then have "probe_dimensions result = probe_dimensions \<lparr>returncode = 0, stdout = ''1280,720''\<rparr>"
    by (simp only: eval_probe_ok)
  from convert_video_body_probe [OF this, of world is_icon]
  show "convert_video_body (world\<lparr>ffprobe := Inr result\<rparr>) is_icon
           = convert_video_body (world\<lparr>ffprobe := probe_ok\<rparr>) is_icon"
    by (simp only: probe_ok_def)
next
  fix err assume e: "ffprobe world = Inl err"
  show "\<not> convert_video world is_icon" "encoder_calls world is_icon = []"
    "raised world is_icon = Some err"
    by (simp_all add: convert_video_def encoder_calls_def raised_def convert_video_probe_raises [OF e])
qed

theorem probe_fallback_witness:
  "parse_dimensions (stdout probe_failed) = Inl ValueError
   \<and> probe_dimensions probe_failed = Inr (1280, 720)
   \<and> convert_video_body (world_fits\<lparr>ffprobe := Inr probe_failed\<rparr>) False
       = ([make_cmd False 512 288 300], Some 1000, Inr True)
   \<and> ffprobe world_probe_missing = Inl OSError
   \<and> \<not> convert_video world_probe_missing False"
proof -
  have p: "parse_dimensions (stdout probe_failed) = Inl ValueError"
    by (simp add: probe_failed_def eval_parse_examples(1))
  have m: "ffprobe world_probe_missing = Inl OSError"
    by (simp add: world_probe_missing_def)
  from probe_fallback [of probe_failed world_fits False, THEN conjunct1, rule_format, OF p]
    probe_fallback [of probe_failed world_probe_missing False, THEN conjunct2, rule_format, OF m]
    p m
  show ?thesis by (simp add: world_fits_probe(2) body_fits)
qed

end
